theory Spec2Isabelle
  imports Main "HOL-Library.Word"
begin

unbundle bit_operations_syntax

section \<open>Basic types of wiECS.h\<close>

text \<open>
  \<^verbatim>\<open>using Entity = uint32_t\<close>; the sparse table is a \<^verbatim>\<open>std::vector<size_t>\<close>, with
  \<^verbatim>\<open>size_t\<close> taken as 64 bits wide. Sizes of vectors are natural numbers (the length of
  the list); a value becomes a word where the source stores it in a \<^verbatim>\<open>size_t\<close> or
  \<^verbatim>\<open>uint32_t\<close> slot or computes with it in that type.
\<close>

type_synonym Entity = "32 word"
type_synonym size_t = "64 word"

definition INVALID_ENTITY :: Entity where
  "INVALID_ENTITY = 0"

definition DEFAULT_RESERVED_COUNT :: nat where
  "DEFAULT_RESERVED_COUNT = 50000"

text \<open>The sentinel \<^verbatim>\<open>~0\<close> as it arrives in a \<^verbatim>\<open>size_t\<close>: all bits set.\<close>

definition NOT_FOUND :: size_t where
  "NOT_FOUND = NOT 0"

text \<open>
  What can stop an operation: a failed \<^verbatim>\<open>assert\<close> (a contract violation), an access
  outside a vector (undefined behaviour in the source), or a stream that does not hold
  what a read expects.
\<close>

datatype error = AssertFailed | OutOfBounds | StreamError

definition bind_err :: "error + 'a \<Rightarrow> ('a \<Rightarrow> error + 'b) \<Rightarrow> error + 'b" where
  "bind_err m f = (case m of Inl x \<Rightarrow> Inl x | Inr a \<Rightarrow> f a)"

text \<open>
  A loop over a fixed sequence (the indices \<^verbatim>\<open>0 .. count-1\<close>, or the elements of a
  range-for) whose body may fail; it stops at the first failure.
\<close>

primrec for_each :: "'b list \<Rightarrow> ('b \<Rightarrow> 'a \<Rightarrow> error + 'a) \<Rightarrow> 'a \<Rightarrow> error + 'a" where
  "for_each [] body a = Inr a"
| "for_each (x # xs) body a = bind_err (body x a) (for_each xs body)"

text \<open>\<^verbatim>\<open>std::vector::resize(n, v)\<close>: cut to \<open>n\<close> elements or pad with \<open>v\<close>.\<close>

definition resize :: "nat \<Rightarrow> 'a \<Rightarrow> 'a list \<Rightarrow> 'a list" where
  "resize n v xs = (if n \<le> length xs then take n xs else xs @ replicate (n - length xs) v)"

section \<open>The identifier registry: class ECSManager\<close>

text \<open>
  The mutex serialises the operations, so each is one atomic step on the record. The
  registry is the global \<^verbatim>\<open>ecs\<close> of the source; here it is passed and returned.
\<close>

record ECSManager =
  m_freeIDs :: "Entity list"
  m_nextID :: Entity
  m_componentCounts :: "Entity \<rightharpoonup> size_t"
  m_reusedIDCount :: "32 word"

definition ECSManager_init :: ECSManager where
  "ECSManager_init =
     \<lparr>m_freeIDs = [], m_nextID = INVALID_ENTITY + 1,
      m_componentCounts = Map.empty, m_reusedIDCount = 0\<rparr>"

definition GetReusedIDCount :: "ECSManager \<Rightarrow> 32 word" where
  "GetReusedIDCount r = m_reusedIDCount r"

definition GetCurrentEntityCount :: "ECSManager \<Rightarrow> 32 word" where
  "GetCurrentEntityCount r = m_nextID r - 1 - of_nat (length (m_freeIDs r))"

definition CreateEntity :: "ECSManager \<Rightarrow> Entity \<times> ECSManager" where
  "CreateEntity r =
     (if m_freeIDs r \<noteq> [] then
        (last (m_freeIDs r),
         r\<lparr>m_freeIDs := butlast (m_freeIDs r), m_reusedIDCount := m_reusedIDCount r + 1\<rparr>)
      else (m_nextID r, r\<lparr>m_nextID := m_nextID r + 1\<rparr>))"

text \<open>\<^verbatim>\<open>m_componentCounts[entity]++\<close>: \<^verbatim>\<open>operator[]\<close> inserts 0 for an absent key.\<close>

definition OnComponentAdded :: "ECSManager \<Rightarrow> Entity \<Rightarrow> ECSManager" where
  "OnComponentAdded r entity =
     r\<lparr>m_componentCounts := (m_componentCounts r)
          (entity \<mapsto> (case m_componentCounts r entity of None \<Rightarrow> 0 | Some c \<Rightarrow> c) + 1)\<rparr>"

definition OnComponentRemoved :: "ECSManager \<Rightarrow> Entity \<Rightarrow> ECSManager" where
  "OnComponentRemoved r entity =
     (case m_componentCounts r entity of
        None \<Rightarrow> r
      | Some c \<Rightarrow>
          (if c - 1 = 0 then
             r\<lparr>m_freeIDs := m_freeIDs r @ [entity],
               m_componentCounts := (m_componentCounts r)(entity := None)\<rparr>
           else r\<lparr>m_componentCounts := (m_componentCounts r)(entity \<mapsto> c - 1)\<rparr>))"

definition clear :: "ECSManager \<Rightarrow> ECSManager" where
  "clear r =
     r\<lparr>m_freeIDs := [], m_nextID := INVALID_ENTITY + 1,
       m_componentCounts := Map.empty, m_reusedIDCount := 0\<rparr>"

section \<open>The packed component store: class ComponentManager\<close>

record 'c ComponentManager =
  components :: "'c list"
  entities :: "Entity list"
  sparse :: "size_t list"

text \<open>
  The two constructors. \<^verbatim>\<open>reserve\<close> changes capacity only, which the model does not
  hold; \<^verbatim>\<open>reservedCount\<close> defaults to \<^verbatim>\<open>DEFAULT_RESERVED_COUNT\<close>.
\<close>

definition ComponentManager_reserved :: "nat \<Rightarrow> 'c ComponentManager" where
  "ComponentManager_reserved reservedCount =
     \<lparr>components = [], entities = [], sparse = resize reservedCount NOT_FOUND []\<rparr>"

definition ComponentManager_noargs :: "'c ComponentManager" where
  "ComponentManager_noargs = \<lparr>components = [], entities = [], sparse = []\<rparr>"





definition GetCount :: "'c ComponentManager \<Rightarrow> nat" where
  "GetCount s = length (components s)"

definition Contains :: "'c ComponentManager \<Rightarrow> Entity \<Rightarrow> bool" where
  "Contains s entity =
     (if unat entity \<ge> length (sparse s) then False
      else sparse s ! unat entity \<noteq> NOT_FOUND)"

text \<open>
  \<^verbatim>\<open>GetComponent\<close> returns a pointer into \<^verbatim>\<open>components\<close> or \<^verbatim>\<open>nullptr\<close>: here the
  component pointed to, or \<open>None\<close>.
\<close>

definition GetComponent :: "'c ComponentManager \<Rightarrow> Entity \<Rightarrow> error + 'c option" where
  "GetComponent s entity =
     (if unat entity < length (sparse s) \<and> sparse s ! unat entity \<noteq> NOT_FOUND then
        (if unat (sparse s ! unat entity) < length (components s)
         then Inr (Some (components s ! unat (sparse s ! unat entity)))
         else Inl OutOfBounds)
      else Inr None)"

definition GetIndex :: "'c ComponentManager \<Rightarrow> Entity \<Rightarrow> size_t" where
  "GetIndex s entity =
     (if unat entity < length (sparse s) then sparse s ! unat entity else NOT_FOUND)"

definition Clear :: "ECSManager \<Rightarrow> 'c ComponentManager \<Rightarrow> ECSManager \<times> 'c ComponentManager" where
  "Clear r s =
     (foldl OnComponentRemoved r (entities s),
      s\<lparr>components := [], entities := [],
        sparse := replicate (length (sparse s)) NOT_FOUND\<rparr>)"

text \<open>
  \<^verbatim>\<open>Copy\<close> takes \<^verbatim>\<open>other\<close> by reference: it is another store, or this store itself.
  \<^verbatim>\<open>other\<close> is read after \<^verbatim>\<open>Clear()\<close>; when it is this store, \<^verbatim>\<open>Clear()\<close> has emptied
  it by then, and the three assignments assign each vector to itself.
\<close>

datatype 'c store_ref = This_store | Other_store "'c ComponentManager"

definition Copy ::
  "ECSManager \<Rightarrow> 'c ComponentManager \<Rightarrow> 'c store_ref \<Rightarrow> ECSManager \<times> 'c ComponentManager"
where
  "Copy r s other_ref =
     (case Clear r s of (r1, s1) \<Rightarrow>
        let other = (case other_ref of This_store \<Rightarrow> s1 | Other_store x \<Rightarrow> x) in
        (foldl OnComponentAdded r1 (entities other),
         s1\<lparr>components := components other, entities := entities other,
            sparse := sparse other\<rparr>))"

text \<open>
  \<^verbatim>\<open>Create\<close>. The sum \<^verbatim>\<open>entity + 5000\<close> is computed in \<^verbatim>\<open>uint32_t\<close>, so it is the
  word sum. The reference returned is \<^verbatim>\<open>components.back()\<close>: here the dense index of
  that element, through which the caller then writes (\<open>write_component\<close>).
  \<open>dflt\<close> is the default-constructed component.
\<close>

definition Create ::
  "'c \<Rightarrow> ECSManager \<Rightarrow> 'c ComponentManager \<Rightarrow> Entity \<Rightarrow> error + (ECSManager \<times> 'c ComponentManager \<times> nat)"
where
  "Create dflt r s entity =
     (if entity = INVALID_ENTITY then Inl AssertFailed
      else
        let sp = (if unat entity \<ge> length (sparse s)
                  then resize (unat (entity + 5000)) NOT_FOUND (sparse s) else sparse s)
        in if \<not> unat entity < length sp then Inl OutOfBounds
           else if sp ! unat entity \<noteq> NOT_FOUND then Inl AssertFailed
           else Inr (OnComponentAdded r entity,
                     s\<lparr>components := components s @ [dflt],
                       entities := entities s @ [entity],
                       sparse := sp[unat entity := of_nat (length (components s))]\<rparr>,
                     length (components s)))"

text \<open>
  A write through a component reference (\<^verbatim>\<open>operator[]\<close>, or the reference that
  \<^verbatim>\<open>Create\<close> returned, while it is valid).
\<close>

definition write_component :: "'c ComponentManager \<Rightarrow> nat \<Rightarrow> 'c \<Rightarrow> error + 'c ComponentManager" where
  "write_component s index c =
     (if index < length (components s)
      then Inr (s\<lparr>components := (components s)[index := c]\<rparr>)
      else Inl OutOfBounds)"

text \<open>
  \<^verbatim>\<open>Remove\<close>. \<^verbatim>\<open>components.size() - 1\<close> is a \<^verbatim>\<open>size_t\<close> difference and wraps for an
  empty vector. \<^verbatim>\<open>std::move\<close> is a copy here: every slot moved from is overwritten or
  popped before it is read again.
\<close>

definition Remove ::
  "ECSManager \<Rightarrow> 'c ComponentManager \<Rightarrow> Entity \<Rightarrow> error + (ECSManager \<times> 'c ComponentManager)"
where
  "Remove r s entity =
     (if unat entity < length (sparse s) \<and> sparse s ! unat entity \<noteq> NOT_FOUND then
        let index = sparse s ! unat entity in
        if \<not> unat index < length (entities s) then Inl OutOfBounds
        else
          let entity_to_remove = entities s ! unat index in
          bind_err
            (if index < of_nat (length (components s)) - 1 then
               (if \<not> unat index < length (components s) then Inl OutOfBounds
                else
                  let ents = (entities s)[unat index := last (entities s)] in
                  Inr (s\<lparr>components := (components s)[unat index := last (components s)],
                         entities := ents,
                         sparse := (if unat (ents ! unat index) < length (sparse s)
                                    then (sparse s)[unat (ents ! unat index) := index]
                                    else sparse s)\<rparr>))
             else Inr s)
            (\<lambda>s1.
               if components s1 = [] \<or> entities s1 = [] then Inl OutOfBounds
               else
                 Inr (OnComponentRemoved r entity_to_remove,
                      s1\<lparr>components := butlast (components s1),
                         entities := butlast (entities s1),
                         sparse := (if unat entity_to_remove < length (sparse s1)
                                    then (sparse s1)[unat entity_to_remove := NOT_FOUND]
                                    else sparse s1)\<rparr>))
      else Inr (r, s))"

text \<open>
  The step shared by the shifting loops:
  \<^verbatim>\<open>entities[i] = e; if (entities[i] < sparse.size()) sparse[entities[i]] = i;\<close>
\<close>

definition set_entity :: "nat \<Rightarrow> Entity \<Rightarrow> 'c ComponentManager \<Rightarrow> 'c ComponentManager" where
  "set_entity i e s =
     (let ents = (entities s)[i := e] in
      s\<lparr>entities := ents,
        sparse := (if unat (ents ! i) < length (sparse s)
                   then (sparse s)[unat (ents ! i) := of_nat i] else sparse s)\<rparr>)"

definition set_component :: "nat \<Rightarrow> 'c \<Rightarrow> 'c ComponentManager \<Rightarrow> 'c ComponentManager" where
  "set_component i c s = s\<lparr>components := (components s)[i := c]\<rparr>"

text \<open>
  \<^verbatim>\<open>Remove_KeepSorted\<close>: the first loop shifts the components, the second the entities
  and repoints \<^verbatim>\<open>sparse\<close>; both run over \<^verbatim>\<open>index + 1 .. size - 1\<close> and write slot
  \<^verbatim>\<open>i - 1\<close>.
\<close>

definition Remove_KeepSorted ::
  "ECSManager \<Rightarrow> 'c ComponentManager \<Rightarrow> Entity \<Rightarrow> error + (ECSManager \<times> 'c ComponentManager)"
where
  "Remove_KeepSorted r s entity =
     (if unat entity < length (sparse s) \<and> sparse s ! unat entity \<noteq> NOT_FOUND then
        let index = sparse s ! unat entity in
        if \<not> unat index < length (entities s) then Inl OutOfBounds
        else
          let entity_to_remove = entities s ! unat index;
              s1 = (if index < of_nat (length (components s)) - 1 then
                      let sa = fold (\<lambda>i t. set_component (i - 1) (components t ! i) t)
                                 [unat index + 1 ..< length (components s)] s
                      in fold (\<lambda>i t. set_entity (i - 1) (entities t ! i) t)
                           [unat index + 1 ..< length (entities sa)] sa
                    else s)
          in if components s1 = [] \<or> entities s1 = [] then Inl OutOfBounds
             else
               Inr (OnComponentRemoved r entity_to_remove,
                    s1\<lparr>components := butlast (components s1),
                       entities := butlast (entities s1),
                       sparse := (if unat entity_to_remove < length (sparse s1)
                                  then (sparse s1)[unat entity_to_remove := NOT_FOUND]
                                  else sparse s1)\<rparr>)
      else Inr (r, s))"

text \<open>
  \<^verbatim>\<open>MoveItem\<close>. The loop variable runs from \<^verbatim>\<open>index_from\<close> towards \<^verbatim>\<open>index_to\<close> in
  steps of \<^verbatim>\<open>direction\<close>; \<open>MoveItem_indices\<close> is the sequence of values it takes. The
  asserts bound the indices by \<^verbatim>\<open>components.size()\<close> only, so reading \<^verbatim>\<open>entities\<close> at
  them is checked apart.
\<close>

definition MoveItem_indices :: "nat \<Rightarrow> nat \<Rightarrow> nat list" where
  "MoveItem_indices index_from index_to =
     (if index_from < index_to then [index_from ..< index_to]
      else rev [index_to + 1 ..< index_from + 1])"

definition MoveItem :: "'c ComponentManager \<Rightarrow> nat \<Rightarrow> nat \<Rightarrow> error + 'c ComponentManager" where
  "MoveItem s index_from index_to =
     (if \<not> index_from < GetCount s then Inl AssertFailed
      else if \<not> index_to < GetCount s then Inl AssertFailed
      else if index_from = index_to then Inr s
      else if \<not> index_from < length (entities s) \<or> \<not> index_to < length (entities s)
      then Inl OutOfBounds
      else
        let component = components s ! index_from;
            entity = entities s ! index_from;
            next = (\<lambda>i. if index_from < index_to then i + 1 else i - 1);
            s1 = fold (\<lambda>i t. set_entity i (entities t ! next i)
                                (set_component i (components t ! next i) t))
                   (MoveItem_indices index_from index_to) s;
            s2 = set_component index_to component s1;
            s3 = s2\<lparr>entities := (entities s2)[index_to := entity]\<rparr>
        in Inr (if unat entity < length (sparse s3)
                then s3\<lparr>sparse := (sparse s3)[unat entity := of_nat index_to]\<rparr> else s3))"

text \<open>
  \<^verbatim>\<open>Merge\<close>. \<^verbatim>\<open>reserve\<close> is capacity only. The body of the loop, for index \<open>i\<close> of
  \<^verbatim>\<open>other\<close>; \<^verbatim>\<open>entity + 5000\<close> is again a \<^verbatim>\<open>uint32_t\<close> sum.
\<close>

definition Merge_body ::
  "'c ComponentManager \<Rightarrow> nat \<Rightarrow> ECSManager \<times> 'c ComponentManager \<Rightarrow>
   error + (ECSManager \<times> 'c ComponentManager)"
where
  "Merge_body other i = (\<lambda>(r, s).
     if \<not> i < length (entities other) then Inl OutOfBounds
     else
       let entity = entities other ! i in
       if Contains s entity then Inl AssertFailed
       else
         let sp = (if unat entity \<ge> length (sparse s)
                   then resize (unat (entity + 5000)) NOT_FOUND (sparse s) else sparse s)
         in if \<not> unat entity < length sp then Inl OutOfBounds
            else Inr (OnComponentAdded r entity,
                      s\<lparr>components := components s @ [components other ! i],
                        entities := entities s @ [entity],
                        sparse := sp[unat entity := of_nat (length (components s))]\<rparr>))"

definition Merge ::
  "ECSManager \<Rightarrow> 'c ComponentManager \<Rightarrow> 'c ComponentManager \<Rightarrow>
   error + (ECSManager \<times> 'c ComponentManager \<times> 'c ComponentManager)"
where
  "Merge r s other =
     (let s0 = (if length (sparse s) < length (sparse other)
                then s\<lparr>sparse := resize (length (sparse other) + 5000) NOT_FOUND (sparse s)\<rparr>
                else s)
      in bind_err (for_each [0 ..< GetCount other] (Merge_body other) (r, s0))
           (\<lambda>(r1, s1). case Clear r1 other of (r2, other') \<Rightarrow> Inr (r2, s1, other')))"

section \<open>Serialization\<close>

text \<open>
  Modelled from the spec: the persistence facility \<^verbatim>\<open>wiArchive\<close> is not in the
  repository. It has a mode flag and typed stream operators; an entity handle is stored
  as a 64-bit identity value, and so is a count. A read takes the next value from the
  front of the stream, a write appends one. The \<^verbatim>\<open>Serialize\<close> method of the component
  type (the template parameter) is not in the repository either: it writes the payload
  as one item and reads one back.
\<close>

datatype 'c item = U64 "64 word" | Payload 'c

record 'c wiArchive =
  readMode :: bool
  stream :: "'c item list"

definition IsReadMode :: "'c wiArchive \<Rightarrow> bool" where
  "IsReadMode archive = readMode archive"

definition write_u64 :: "'c wiArchive \<Rightarrow> 64 word \<Rightarrow> 'c wiArchive" where
  "write_u64 archive v = archive\<lparr>stream := stream archive @ [U64 v]\<rparr>"

definition read_u64 :: "'c wiArchive \<Rightarrow> error + (64 word \<times> 'c wiArchive)" where
  "read_u64 archive =
     (case stream archive of
        U64 v # rest \<Rightarrow> Inr (v, archive\<lparr>stream := rest\<rparr>)
      | _ \<Rightarrow> Inl StreamError)"

definition Component_Serialize :: "'c \<Rightarrow> 'c wiArchive \<Rightarrow> error + ('c \<times> 'c wiArchive)" where
  "Component_Serialize c archive =
     (if IsReadMode archive then
        (case stream archive of
           Payload c' # rest \<Rightarrow> Inr (c', archive\<lparr>stream := rest\<rparr>)
         | _ \<Rightarrow> Inl StreamError)
      else Inr (c, archive\<lparr>stream := stream archive @ [Payload c]\<rparr>))"

record EntitySerializer =
  remap :: "64 word \<rightharpoonup> Entity"
  allow_remap :: bool

text \<open>
  \<^verbatim>\<open>SerializeEntity\<close>: reading takes a \<^verbatim>\<open>uint64_t\<close> and either remaps it (allocating
  through the registry on first sight) or casts it to \<^verbatim>\<open>Entity\<close>; writing stores the
  entity.
\<close>

definition SerializeEntity ::
  "ECSManager \<Rightarrow> EntitySerializer \<Rightarrow> 'c wiArchive \<Rightarrow> Entity \<Rightarrow>
   error + (ECSManager \<times> EntitySerializer \<times> 'c wiArchive \<times> Entity)"
where
  "SerializeEntity r seri archive entity =
     (if IsReadMode archive then
        bind_err (read_u64 archive) (\<lambda>(mem, archive').
          if allow_remap seri then
            (case remap seri mem of
               None \<Rightarrow>
                 (case CreateEntity r of (e, r') \<Rightarrow>
                    Inr (r', seri\<lparr>remap := (remap seri)(mem \<mapsto> e)\<rparr>, archive', e))
             | Some e \<Rightarrow> Inr (r, seri, archive', e))
          else Inr (r, seri, archive', ucast mem))
      else Inr (r, seri, write_u64 archive (ucast entity), entity))"

text \<open>
  \<^verbatim>\<open>ComponentManager::Serialize\<close>. In read mode: clear, read the count, read that many
  payloads into \<^verbatim>\<open>components\<close>, read that many handles into \<^verbatim>\<open>entities\<close> (tracking
  \<^verbatim>\<open>max_entity\<close>, a \<^verbatim>\<open>size_t\<close>, and notifying the registry), grow \<^verbatim>\<open>sparse\<close> once, then
  fill it. In write mode: the count, the payloads, the handles.
\<close>

definition Serialize_read_entity ::
  "nat \<Rightarrow> ECSManager \<times> EntitySerializer \<times> 'c wiArchive \<times> Entity list \<times> size_t \<Rightarrow>
   error + (ECSManager \<times> EntitySerializer \<times> 'c wiArchive \<times> Entity list \<times> size_t)"
where
  "Serialize_read_entity i = (\<lambda>(r, seri, archive, ents, max_entity).
     bind_err (SerializeEntity r seri archive 0) (\<lambda>(r', seri', archive', entity).
       Inr (OnComponentAdded r' entity, seri', archive', ents[i := entity],
            (if ucast entity > max_entity then ucast entity else max_entity))))"

definition Serialize ::
  "'c \<Rightarrow> ECSManager \<Rightarrow> EntitySerializer \<Rightarrow> 'c ComponentManager \<Rightarrow> 'c wiArchive \<Rightarrow>
   error + (ECSManager \<times> EntitySerializer \<times> 'c ComponentManager \<times> 'c wiArchive)"
where
  "Serialize dflt r seri s archive =
     (if IsReadMode archive then
        (case Clear r s of (r1, s1) \<Rightarrow>
         bind_err (read_u64 archive) (\<lambda>(count, a1).
         bind_err (for_each [0 ..< unat count]
                     (\<lambda>i (comps, a). bind_err (Component_Serialize (comps ! i) a)
                        (\<lambda>(c, a'). Inr (comps[i := c], a')))
                     (resize (unat count) dflt (components s1), a1)) (\<lambda>(comps, a2).
         bind_err (for_each [0 ..< unat count] Serialize_read_entity
                     (r1, seri, a2, resize (unat count) 0 (entities s1), 0))
           (\<lambda>(r2, seri2, a3, ents, max_entity).
         let sp = (if unat (max_entity + 1) > length (sparse s1)
                   then resize (unat (max_entity + 5000)) NOT_FOUND (sparse s1)
                   else sparse s1)
         in bind_err (for_each [0 ..< unat count]
                        (\<lambda>i sp'. if unat (ents ! i) < length sp'
                                  then Inr (sp'[unat (ents ! i) := of_nat i])
                                  else Inl OutOfBounds) sp)
              (\<lambda>sp'. Inr (r2, seri2, s1\<lparr>components := comps, entities := ents, sparse := sp'\<rparr>,
                           a3))))))
      else
        bind_err (for_each (components s)
                    (\<lambda>c a. bind_err (Component_Serialize c a) (\<lambda>(c', a'). Inr a'))
                    (write_u64 archive (of_nat (length (components s))))) (\<lambda>a1.
        bind_err (for_each (entities s)
                    (\<lambda>e a. bind_err (SerializeEntity r seri a e) (\<lambda>(r', seri', a', e'). Inr a'))
                    a1) (\<lambda>a2.
        Inr (r, seri, s, a2))))"

section \<open>The coherence invariant of a store\<close>

text \<open>
  The dense arrays have one length and hold no entity twice; the sparse slot of the
  entity at dense index \<open>k\<close> holds \<open>k\<close>; every other slot is unmapped.
\<close>

definition store_inv :: "'c ComponentManager \<Rightarrow> bool" where
  "store_inv s \<longleftrightarrow>
     length (components s) = length (entities s) \<and>
     distinct (entities s) \<and>
     (\<forall>k \<in> {0 ..< length (entities s)}.
        unat (entities s ! k) < length (sparse s) \<and>
        sparse s ! unat (entities s ! k) = of_nat k) \<and>
     (\<forall>x \<in> {0 ..< length (sparse s)}.
        x \<notin> unat ` set (entities s) \<longrightarrow> sparse s ! x = NOT_FOUND)"

section \<open>Caller-side scripts used by the claims\<close>

text \<open>\<^verbatim>\<open>T& c = store.Create(e); c = x;\<close>: create, then populate through the reference.\<close>

definition create_and_set ::
  "'c \<Rightarrow> ECSManager \<Rightarrow> 'c ComponentManager \<Rightarrow> Entity \<Rightarrow> 'c \<Rightarrow>
   error + (ECSManager \<times> 'c ComponentManager)"
where
  "create_and_set dflt r s e x =
     bind_err (Create dflt r s e) (\<lambda>(r', s', ref).
       bind_err (write_component s' ref x) (\<lambda>s''. Inr (r', s'')))"

text \<open>
  The scenario of the specification: on a fresh registry create three entities, give
  each a component in one store (built with \<open>n\<close> reserved slots), remove the first,
  and ask the registry for an entity again. The result holds the store before and after
  the removal, the registry after the removal, the entity handed out and the final
  registry.
\<close>

definition remove_first_scenario ::
  "nat \<Rightarrow> 'c \<Rightarrow> 'c \<Rightarrow> 'c \<Rightarrow> 'c \<Rightarrow>
   error + ('c ComponentManager \<times> 'c ComponentManager \<times> ECSManager \<times> Entity \<times> ECSManager)"
where
  "remove_first_scenario n dflt X1 X2 X3 =
     (case CreateEntity ECSManager_init of (e1, r1) \<Rightarrow>
      case CreateEntity r1 of (e2, r2) \<Rightarrow>
      case CreateEntity r2 of (e3, r3) \<Rightarrow>
        bind_err (create_and_set dflt r3 (ComponentManager_reserved n) e1 X1) (\<lambda>(r4, s1).
        bind_err (create_and_set dflt r4 s1 e2 X2) (\<lambda>(r5, s2).
        bind_err (create_and_set dflt r5 s2 e3 X3) (\<lambda>(r6, s3).
        bind_err (Remove r6 s3 e1) (\<lambda>(r7, s4).
        case CreateEntity r7 of (e4, r8) \<Rightarrow> Inr (s3, s4, r7, e4, r8))))))"

text \<open>\<open>n\<close> calls of \<open>CreateEntity\<close> in a row: the entities returned, in order.\<close>

fun CreateEntities :: "nat \<Rightarrow> ECSManager \<Rightarrow> Entity list \<times> ECSManager" where
  "CreateEntities 0 r = ([], r)"
| "CreateEntities (Suc n) r =
     (case CreateEntity r of (e, r') \<Rightarrow>
      case CreateEntities n r' of (es, r'') \<Rightarrow> (e # es, r''))"

text \<open>The calls a store makes on the registry, as values.\<close>

datatype notification = Added Entity | Removed Entity

fun notify :: "ECSManager \<Rightarrow> notification \<Rightarrow> ECSManager" where
  "notify r (Added e) = OnComponentAdded r e"
| "notify r (Removed e) = OnComponentRemoved r e"

text \<open>
  The reuse scenario: on a fresh registry create \<open>N\<close> entities; stores then report
  additions and removals, in any order (\<open>ns\<close>, one list element per call); then \<open>K\<close> more
  entities are created. The result holds the first \<open>N\<close> entities, the registry before the
  last \<open>K\<close> calls, the entities these return, and the final registry.
\<close>

definition reuse_scenario ::
  "nat \<Rightarrow> notification list \<Rightarrow> nat \<Rightarrow> Entity list \<times> ECSManager \<times> Entity list \<times> ECSManager"
where
  "reuse_scenario N ns K =
     (case CreateEntities N ECSManager_init of (ids, r1) \<Rightarrow>
      let r3 = foldl notify r1 ns in
      case CreateEntities K r3 of (outs, r4) \<Rightarrow> (ids, r3, outs, r4))"

text \<open>
  The order of release, in the words of the specification: every entity has a reference
  count, a natural number; an addition increments it, a removal that finds it positive
  decrements it, and the removal that brings it to zero releases the entity. A removal
  that finds no count changes nothing. \<open>release_order c ns\<close> lists the entities that the
  notifications \<open>ns\<close> release, in the order of their release, from the counts \<open>c\<close>.
\<close>

fun release_order :: "(Entity \<Rightarrow> nat) \<Rightarrow> notification list \<Rightarrow> Entity list" where
  "release_order c [] = []"
| "release_order c (Added e # ns) = release_order (c(e := c e + 1)) ns"
| "release_order c (Removed e # ns) =
     (if c e = 1 then e # release_order (c(e := 0)) ns
      else release_order (c(e := c e - 1)) ns)"

text \<open>The reference count the registry holds for an entity; 0 when it tracks none.\<close>

definition ref_count :: "ECSManager \<Rightarrow> Entity \<Rightarrow> nat" where
  "ref_count r e = (case m_componentCounts r e of None \<Rightarrow> 0 | Some c \<Rightarrow> unat c)"

text \<open>No tracked count is zero: an entry is erased when its count reaches zero.\<close>

definition counts_ok :: "ECSManager \<Rightarrow> bool" where
  "counts_ok r \<longleftrightarrow> (\<forall>e c. m_componentCounts r e = Some c \<longrightarrow> c \<noteq> 0)"

text \<open>
  The sequence of notifications \<open>Merge\<close> makes: one addition per entity of \<open>other\<close> from
  the loop, then one removal per entity from \<open>other.Clear()\<close>.
\<close>

definition Merge_notifications :: "'c ComponentManager \<Rightarrow> notification list" where
  "Merge_notifications other = map Added (entities other) @ map Removed (entities other)"

section \<open>Sequences of store operations\<close>

text \<open>
  The mutating operations of the public interface of a store, as values. The lookups
  (\<open>Contains\<close>, \<open>GetComponent\<close>, \<open>GetIndex\<close>, \<open>GetCount\<close> and the other getters) change
  nothing and are left out; \<open>Op_Write\<close> is an assignment through \<^verbatim>\<open>operator[]\<close>.
  \<open>Op_Copy\<close> carries the reference to the other store, which may be this store itself;
  \<open>Op_Merge\<close> carries the other store, a different object of the same class;
  \<open>Op_Serialize\<close> carries the load context and the archive.
\<close>

datatype 'c operation =
    Op_Create Entity
  | Op_Remove Entity
  | Op_Remove_KeepSorted Entity
  | Op_MoveItem nat nat
  | Op_Clear
  | Op_Copy "'c store_ref"
  | Op_Merge "'c ComponentManager"
  | Op_Serialize EntitySerializer "'c wiArchive"
  | Op_Write nat 'c

text \<open>One call on the store \<open>s\<close> with the registry \<open>r\<close>: the registry and the store after it.\<close>

definition step ::
  "'c \<Rightarrow> 'c operation \<Rightarrow> ECSManager \<times> 'c ComponentManager \<Rightarrow>
   error + (ECSManager \<times> 'c ComponentManager)"
where
  "step dflt op = (\<lambda>(r, s).
     case op of
       Op_Create e \<Rightarrow> bind_err (Create dflt r s e) (\<lambda>(r', s', ref). Inr (r', s'))
     | Op_Remove e \<Rightarrow> Remove r s e
     | Op_Remove_KeepSorted e \<Rightarrow> Remove_KeepSorted r s e
     | Op_MoveItem index_from index_to \<Rightarrow>
         bind_err (MoveItem s index_from index_to) (\<lambda>s'. Inr (r, s'))
     | Op_Clear \<Rightarrow> Inr (Clear r s)
     | Op_Copy other \<Rightarrow> Inr (Copy r s other)
     | Op_Merge other \<Rightarrow> bind_err (Merge r s other) (\<lambda>(r', s', other'). Inr (r', s'))
     | Op_Serialize seri archive \<Rightarrow>
         bind_err (Serialize dflt r seri s archive) (\<lambda>(r', seri', s', archive'). Inr (r', s'))
     | Op_Write index c \<Rightarrow> bind_err (write_component s index c) (\<lambda>s'. Inr (r, s')))"

text \<open>A sequence of calls, one after the other; it stops at the first that fails.\<close>

definition run ::
  "'c \<Rightarrow> 'c operation list \<Rightarrow> ECSManager \<times> 'c ComponentManager \<Rightarrow>
   error + (ECSManager \<times> 'c ComponentManager)"
where
  "run dflt ops st = for_each ops (step dflt) st"

text \<open>The entity handles a call of \<open>Serialize\<close> leaves in the store.\<close>

definition loaded_entities ::
  "'c \<Rightarrow> ECSManager \<Rightarrow> EntitySerializer \<Rightarrow> 'c ComponentManager \<Rightarrow> 'c wiArchive \<Rightarrow> Entity list"
where
  "loaded_entities dflt r seri s archive =
     (case Serialize dflt r seri s archive of
        Inl err \<Rightarrow> []
      | Inr (r', seri', s', archive') \<Rightarrow> entities s')"

text \<open>
  What a call requires beyond what the code checks itself. \<open>Copy\<close> takes over the three
  arrays of another store as they are, so that store has to be coherent; a load has to
  resolve the handles of the archive to pairwise different entities.
\<close>

definition op_pre :: "'c \<Rightarrow> 'c operation \<Rightarrow> ECSManager \<times> 'c ComponentManager \<Rightarrow> bool" where
  "op_pre dflt op = (\<lambda>(r, s).
     case op of
       Op_Copy other \<Rightarrow> (case other of This_store \<Rightarrow> True | Other_store x \<Rightarrow> store_inv x)
     | Op_Serialize seri archive \<Rightarrow>
         \<not> IsReadMode archive \<or> distinct (loaded_entities dflt r seri s archive)
     | _ \<Rightarrow> True)"



text \<open>
  A sequence of calls is executed with its preconditions satisfied: every call meets
  the requirement \<open>P\<close> in the state it is made in and runs to its end, with no assertion
  failing and no access outside a vector.
\<close>

fun run_pre ::
  "('c operation \<Rightarrow> ECSManager \<times> 'c ComponentManager \<Rightarrow> bool) \<Rightarrow> 'c \<Rightarrow> 'c operation list \<Rightarrow>
   ECSManager \<times> 'c ComponentManager \<Rightarrow> bool"
where
  "run_pre P dflt [] st = True"
| "run_pre P dflt (op # ops) st =
     (P op st \<and> (case step dflt op st of Inl err \<Rightarrow> False | Inr st' \<Rightarrow> run_pre P dflt ops st'))"

text \<open>
  The coherence of the sparse table and the dense arrays, in the words of the
  specification: the dense arrays have one length; the sparse entry of an entity (as
  \<open>GetIndex\<close> reads it) is the sentinel exactly when the entity has no component in the
  store; and an entry that is not the sentinel is a dense index at which the entity
  itself is stored.
\<close>

definition coherent :: "'c ComponentManager \<Rightarrow> bool" where
  "coherent s \<longleftrightarrow>
     length (components s) = length (entities s) \<and>
     (\<forall>e. (GetIndex s e = NOT_FOUND) = (e \<notin> set (entities s))) \<and>
     (\<forall>e. GetIndex s e = NOT_FOUND \<or>
          (unat (GetIndex s e) < length (entities s) \<and> entities s ! unat (GetIndex s e) = e))"

section \<open>The bounds guards of the removing and moving operations\<close>






section \<open>Basic facts\<close>

lemma Contains_iff:
  "Contains s e \<longleftrightarrow> unat e < length (sparse s) \<and> sparse s ! unat e \<noteq> NOT_FOUND"
  by (simp add: Contains_def)

lemma NOT_FOUND_eq: "NOT_FOUND = - 1"
  by (simp add: NOT_FOUND_def)

lemma distinct_entities_length: "distinct (es :: Entity list) \<Longrightarrow> length es \<le> 2 ^ 32"
proof -
  assume d: "distinct es"
  have "length es = card (set es)" using d by (simp add: distinct_card)
  also have "\<dots> \<le> card (UNIV :: Entity set)" by (rule card_mono) simp_all
  also have "\<dots> = 2 ^ 32" by (simp add: card_word)
  finally show ?thesis .
qed

lemma unat_of_nat_index: "n \<le> 2 ^ 32 \<Longrightarrow> unat (of_nat n :: size_t) = n"
  by (simp add: unat_of_nat)

lemma of_nat_index_not_NF: "n \<le> 2 ^ 32 \<Longrightarrow> (of_nat n :: size_t) \<noteq> NOT_FOUND"
proof
  assume n: "n \<le> 2 ^ 32" and eq: "(of_nat n :: size_t) = NOT_FOUND"
  have "unat (of_nat n :: size_t) = n" using n by (rule unat_of_nat_index)
  moreover have "unat NOT_FOUND = 2 ^ 64 - 1" by (simp add: NOT_FOUND_eq unsigned_minus_1_eq_mask mask_eq_exp_minus_1)
  ultimately show False using eq n by simp
qed


lemma unat_in_image: "unat (e :: 'a::len word) \<in> unat ` A \<longleftrightarrow> e \<in> A"
  by (metis image_iff word_unat_eq_iff)

lemma store_inv_index:
  "store_inv s \<Longrightarrow> k < length (entities s) \<Longrightarrow>
   unat (entities s ! k) < length (sparse s) \<and> sparse s ! unat (entities s ! k) = of_nat k"
  by (simp add: store_inv_def)

lemma store_inv_length_le: "store_inv s \<Longrightarrow> length (entities s) \<le> 2 ^ 32"
  using distinct_entities_length [of "entities s"] by (simp add: store_inv_def)

lemma store_inv_unmapped:
  "store_inv s \<Longrightarrow> x < length (sparse s) \<Longrightarrow> x \<notin> unat ` set (entities s) \<Longrightarrow>
   sparse s ! x = NOT_FOUND"
  by (simp add: store_inv_def)

lemma Contains_iff_mem:
  assumes "store_inv s"
  shows "Contains s e \<longleftrightarrow> e \<in> set (entities s)"
proof
  assume c: "Contains s e"
  show "e \<in> set (entities s)"
  proof (rule ccontr)
    assume "e \<notin> set (entities s)"
    then have "unat e \<notin> unat ` set (entities s)" by (simp add: unat_in_image)
    with assms c show False
      using store_inv_unmapped [of s "unat e"] by (simp add: Contains_iff)
  qed
next
  assume "e \<in> set (entities s)"
  then obtain k where k: "k < length (entities s)" "entities s ! k = e"
    by (auto simp: in_set_conv_nth)
  have "k \<le> 2 ^ 32" using store_inv_length_le [OF assms] k by simp
  then have "(of_nat k :: size_t) \<noteq> NOT_FOUND" by (rule of_nat_index_not_NF)
  with store_inv_index [OF assms k(1)] k(2) show "Contains s e"
    by (simp add: Contains_iff)
qed

lemma store_inv_entity_at:
  assumes "store_inv s" "Contains s e"
  shows "unat (sparse s ! unat e) < length (entities s) \<and>
         entities s ! unat (sparse s ! unat e) = e"
proof -
  from assms have "e \<in> set (entities s)" by (simp add: Contains_iff_mem)
  then obtain k where k: "k < length (entities s)" "entities s ! k = e"
    by (auto simp: in_set_conv_nth)
  have "k \<le> 2 ^ 32" using store_inv_length_le [OF assms(1)] k by simp
  then have "unat (of_nat k :: size_t) = k" by (rule unat_of_nat_index)
  with store_inv_index [OF assms(1) k(1)] k show ?thesis by simp
qed

lemma store_inv_reserved: "store_inv (ComponentManager_reserved n)"
  by (simp add: store_inv_def ComponentManager_reserved_def resize_def)

lemma store_inv_noargs: "store_inv ComponentManager_noargs"
  by (simp add: store_inv_def ComponentManager_noargs_def)

lemma store_inv_Clear: "store_inv (snd (Clear r s))"
  by (simp add: store_inv_def Clear_def)

text \<open>Appending one entry, as \<open>Create\<close> and the body of \<open>Merge\<close> do.\<close>

lemma store_inv_append:
  assumes inv: "store_inv s"
    and fresh: "e \<notin> set (entities s)"
    and sp: "sp = sparse s @ replicate m NOT_FOUND"
    and bound: "unat e < length sp"
  shows "store_inv (s\<lparr>components := components s @ [c], entities := entities s @ [e],
                       sparse := sp[unat e := of_nat (length (components s))]\<rparr>)"
proof -
  let ?n = "length (entities s)"
  have len: "length (components s) = ?n" and dist: "distinct (entities s)"
    using inv by (simp_all add: store_inv_def)
  have ne: "\<And>k. k < ?n \<Longrightarrow> unat (entities s ! k) \<noteq> unat e"
    using fresh by (metis nth_mem word_unat_eq_iff)
  have old: "\<And>k. k < ?n \<Longrightarrow> unat (entities s ! k) < length (sparse s) \<and>
                 sparse s ! unat (entities s ! k) = of_nat k"
    using store_inv_index [OF inv] by simp
  have three: "\<forall>k \<in> {0 ..< Suc ?n}.
      unat ((entities s @ [e]) ! k) < length sp \<and>
      sp[unat e := of_nat ?n] ! unat ((entities s @ [e]) ! k) = of_nat k"
  proof
    fix k assume "k \<in> {0 ..< Suc ?n}"
    then consider "k < ?n" | "k = ?n" by force
    then show "unat ((entities s @ [e]) ! k) < length sp \<and>
      sp[unat e := of_nat ?n] ! unat ((entities s @ [e]) ! k) = of_nat k"
    proof cases
      case 1
      then show ?thesis using old [OF 1] ne [OF 1] sp
        by (simp add: nth_append)
    next
      case 2
      then show ?thesis using bound by simp
    qed
  qed
  have four: "\<forall>x \<in> {0 ..< length sp}.
      x \<notin> unat ` set (entities s @ [e]) \<longrightarrow> sp[unat e := of_nat ?n] ! x = NOT_FOUND"
  proof (intro ballI impI)
    fix x assume x: "x \<in> {0 ..< length sp}" and nin: "x \<notin> unat ` set (entities s @ [e])"
    then have xe: "x \<noteq> unat e" and nin': "x \<notin> unat ` set (entities s)" by auto
    show "sp[unat e := of_nat ?n] ! x = NOT_FOUND"
    proof (cases "x < length (sparse s)")
      case True
      then show ?thesis using xe sp store_inv_unmapped [OF inv True nin']
        by (simp add: nth_append)
    next
      case False
      then show ?thesis using xe sp x by (simp add: nth_append)
    qed
  qed
  show ?thesis
    using len dist fresh three four by (simp add: store_inv_def)
qed

text \<open>When \<open>Create\<close> grows the table and its write is in bounds, the growth was a true one.\<close>

lemma resize_grows:
  "length xs \<le> i \<Longrightarrow> i < length (resize n v xs) \<Longrightarrow>
   resize n v xs = xs @ replicate (n - length xs) v \<and> length xs < n"
  by (auto simp: resize_def split: if_splits)

lemma length_resize [simp]: "length (resize n v xs) = n"
  by (simp add: resize_def)

lemma Create_Inr:
  assumes "Create dflt r s e = Inr (r', s', ix)"
  shows "e \<noteq> 0 \<and> \<not> Contains s e \<and> r' = OnComponentAdded r e \<and> ix = length (components s) \<and>
         (\<exists>m. s' = s\<lparr>components := components s @ [dflt], entities := entities s @ [e],
                 sparse := (sparse s @ replicate m NOT_FOUND)[unat e := of_nat (length (components s))]\<rparr> \<and>
              unat e < length (sparse s) + m \<and>
              (m = (if unat e < length (sparse s) then 0 else unat (e + 5000) - length (sparse s))))"
proof (cases "unat e < length (sparse s)")
  case True
  with assms show ?thesis
    by (auto simp: Create_def INVALID_ENTITY_def Contains_iff Let_def split: if_splits)
next
  case False
  then have le: "length (sparse s) \<le> unat e" by simp
  from assms False have b: "unat e < length (resize (unat (e + 5000)) NOT_FOUND (sparse s))"
    by (auto simp: Create_def Let_def split: if_splits)
  note g = resize_grows [OF le b]
  from assms False g show ?thesis
    by (auto simp: Create_def INVALID_ENTITY_def Contains_iff Let_def split: if_splits)
qed

lemma store_inv_Create:
  assumes "store_inv s" "Create dflt r s e = Inr (r', s', ix)"
  shows "store_inv s'"
proof -
  from Create_Inr [OF assms(2)] obtain m where
    nc: "\<not> Contains s e" and
    s': "s' = s\<lparr>components := components s @ [dflt], entities := entities s @ [e],
                 sparse := (sparse s @ replicate m NOT_FOUND)[unat e := of_nat (length (components s))]\<rparr>" and
    b: "unat e < length (sparse s) + m"
    by blast
  from nc assms(1) have "e \<notin> set (entities s)" by (simp add: Contains_iff_mem)
  then show ?thesis unfolding s'
    using assms(1) b by (intro store_inv_append) simp_all
qed

section \<open>Remove: swap and pop\<close>

lemma unat_size_minus_one:
  "0 < n \<Longrightarrow> n \<le> 2 ^ 32 \<Longrightarrow> unat ((of_nat n :: size_t) - 1) = n - 1"
proof -
  assume n: "0 < n" "n \<le> 2 ^ 32"
  have "(of_nat n :: size_t) - 1 = of_nat (n - 1)" using n by (cases n) simp_all
  moreover have "unat (of_nat (n - 1) :: size_t) = n - 1"
    using n by (intro unat_of_nat_index) simp
  ultimately show ?thesis by simp
qed

lemma Remove_present:
  assumes inv: "store_inv s" and c: "Contains s e"
  shows "Remove r s e =
     Inr (OnComponentRemoved r e,
          s\<lparr>components := butlast ((components s)[unat (sparse s ! unat e) := last (components s)]),
            entities := butlast ((entities s)[unat (sparse s ! unat e) := last (entities s)]),
            sparse := ((sparse s)[unat (last (entities s)) := sparse s ! unat e])
                        [unat e := NOT_FOUND]\<rparr>)"
proof -
  let ?i = "unat (sparse s ! unat e)"
  let ?n = "length (entities s)"
  have i: "?i < ?n" and ei: "entities s ! ?i = e"
    using store_inv_entity_at [OF inv c] by simp_all
  have len: "length (components s) = ?n" using inv by (simp add: store_inv_def)
  have n32: "?n \<le> 2 ^ 32" by (rule store_inv_length_le [OF inv])
  have npos: "0 < ?n" using i by (cases "entities s") simp_all
  have ne: "entities s \<noteq> []" "components s \<noteq> []" using npos len by auto
  have cond: "sparse s ! unat e < of_nat (length (components s)) - 1 \<longleftrightarrow> ?i < ?n - 1"
    using unat_size_minus_one [OF npos n32] len by (simp add: word_less_nat_alt)
  have eb: "unat e < length (sparse s)" "sparse s ! unat e \<noteq> NOT_FOUND"
    using c by (simp_all add: Contains_iff)
  have lastb: "unat (last (entities s)) < length (sparse s)"
    using store_inv_index [OF inv, of "?n - 1"] npos ne by (simp add: last_conv_nth)
  show ?thesis
  proof (cases "?i < ?n - 1")
    case True
    then show ?thesis
      using i ei len ne eb lastb cond
      by (simp add: Remove_def Let_def bind_err_def)
  next
    case False
    then have il: "?i = ?n - 1" using i by simp
    then have le: "last (entities s) = e" using ei ne by (simp add: last_conv_nth)
    show ?thesis
      using False i ei len ne eb cond il le
      by (simp add: Remove_def Let_def bind_err_def butlast_list_update)
  qed
qed

lemma store_inv_swap_pop:
  assumes inv: "store_inv s" and i: "i < length (entities s)"
  shows "store_inv
     (s\<lparr>components := butlast ((components s)[i := c]),
        entities := butlast ((entities s)[i := last (entities s)]),
        sparse := ((sparse s)[unat (last (entities s)) := of_nat i])
                    [unat (entities s ! i) := NOT_FOUND]\<rparr>)"
proof -
  define E where "E = entities s"
  define sp where "sp = sparse s"
  define n where "n = length E"
  define l where "l = last E"
  define e where "e = E ! i"
  define E' where "E' = butlast (E[i := l])"
  define sp' where "sp' = (sp[unat l := of_nat i])[unat e := NOT_FOUND]"
  have len: "length (components s) = n" and dist: "distinct E"
    using inv by (simp_all add: store_inv_def E_def n_def)
  have i: "i < n" using i by (simp add: n_def E_def)
  have l: "l = E ! (n - 1)" using i by (cases E) (simp_all add: l_def n_def last_conv_nth)
  have lenE': "length E' = n - 1" by (simp add: E'_def n_def)
  have nth': "\<And>k. k < n - 1 \<Longrightarrow> E' ! k = (if k = i then l else E ! k)"
    by (simp add: E'_def n_def nth_butlast nth_list_update)
  have inj: "\<And>j k. j < n \<Longrightarrow> k < n \<Longrightarrow> unat (E ! j) = unat (E ! k) \<longleftrightarrow> j = k"
    using dist by (auto simp: distinct_conv_nth n_def word_unat_eq_iff [symmetric])
  have old: "\<And>k. k < n \<Longrightarrow> unat (E ! k) < length sp \<and> sp ! unat (E ! k) = of_nat k"
    using store_inv_index [OF inv] by (simp add: E_def sp_def n_def)
  have unm: "\<And>x. x < length sp \<Longrightarrow> x \<notin> unat ` set E \<Longrightarrow> sp ! x = NOT_FOUND"
    using store_inv_unmapped [OF inv] by (simp add: E_def sp_def)
  have lensp': "length sp' = length sp" by (simp add: sp'_def)
  have d': "distinct E'"
  proof -
    have "\<And>j k. j < n - 1 \<Longrightarrow> k < n - 1 \<Longrightarrow> j \<noteq> k \<Longrightarrow> E' ! j \<noteq> E' ! k"
    proof -
      fix j k assume jk: "j < n - 1" "k < n - 1" "j \<noteq> k"
      then have b: "j < n" "k < n" "n - 1 < n" "j \<noteq> n - 1" "k \<noteq> n - 1" by simp_all
      have "unat (E' ! j) \<noteq> unat (E' ! k)"
        using jk(3) b(4,5) inj [OF b(1) b(2)] inj [OF b(3) b(2)] inj [OF b(1) b(3)]
        by (simp add: nth' [OF jk(1)] nth' [OF jk(2)] l)
      then show "E' ! j \<noteq> E' ! k" by auto
    qed
    then show ?thesis by (simp add: distinct_conv_nth lenE')
  qed
  have three: "\<forall>k \<in> {0 ..< n - 1}. unat (E' ! k) < length sp' \<and> sp' ! unat (E' ! k) = of_nat k"
  proof
    fix k assume "k \<in> {0 ..< n - 1}"
    then have k: "k < n - 1" by simp
    then have b: "k < n" "n - 1 < n" "k \<noteq> n - 1" by simp_all
    show "unat (E' ! k) < length sp' \<and> sp' ! unat (E' ! k) = of_nat k"
    proof (cases "k = i")
      case True
      then have ne: "unat l \<noteq> unat e" using b inj [OF b(2) b(1)] by (simp add: l e_def)
      have ek: "E' ! k = l" using True nth' [OF k] by simp
      have lb: "unat l < length sp" using old [OF b(2)] by (simp add: l)
      show ?thesis using True ne lb ek by (simp add: sp'_def)
    next
      case False
      then have "unat (E ! k) \<noteq> unat e" "unat (E ! k) \<noteq> unat l"
        using b i inj [OF b(1) i] inj [OF b(1) b(2)] by (simp_all add: l e_def)
      moreover have "E' ! k = E ! k" using False nth' [OF k] by simp
      ultimately show ?thesis using old [OF b(1)] by (simp add: sp'_def)
    qed
  qed
  have four: "\<forall>x \<in> {0 ..< length sp'}. x \<notin> unat ` set E' \<longrightarrow> sp' ! x = NOT_FOUND"
  proof (intro ballI impI)
    fix x assume "x \<in> {0 ..< length sp'}" and nin: "x \<notin> unat ` set E'"
    then have x: "x < length sp" by (simp add: lensp')
    have notin: "\<And>k. k < n - 1 \<Longrightarrow> x \<noteq> unat (E' ! k)"
    proof
      fix k assume "k < n - 1" "x = unat (E' ! k)"
      then have "x \<in> unat ` set E'" by (auto intro!: imageI nth_mem simp: lenE')
      with nin show False by simp
    qed
    show "sp' ! x = NOT_FOUND"
    proof (cases "x = unat e")
      case True
      then show ?thesis using x by (simp add: sp'_def)
    next
      case xe: False
      show ?thesis
      proof (cases "x = unat l")
        case True
        with xe have "i \<noteq> n - 1" by (auto simp: l e_def)
        then have il: "i < n - 1" using i by simp
        from notin [OF il] True nth' [OF il] have False by simp
        then show ?thesis ..
      next
        case xl: False
        have "x \<notin> unat ` set E"
        proof
          assume "x \<in> unat ` set E"
          then obtain k where k: "k < n" "x = unat (E ! k)"
            by (auto simp: in_set_conv_nth n_def)
          with xe xl have "k \<noteq> i" "k \<noteq> n - 1" by (auto simp: l e_def)
          then have k': "k < n - 1" using k by simp
          from notin [OF k'] k \<open>k \<noteq> i\<close> show False by (simp add: nth' [OF k'])
        qed
        then have "sp ! x = NOT_FOUND" using unm x by simp
        then show ?thesis using xe xl by (simp add: sp'_def)
      qed
    qed
  qed
  have "store_inv (s\<lparr>components := butlast ((components s)[i := c]), entities := E', sparse := sp'\<rparr>)"
    using len d' three four by (simp add: store_inv_def lenE')
  then show ?thesis by (simp add: E'_def sp'_def l_def e_def E_def sp_def)
qed

lemma store_inv_Remove:
  assumes "store_inv s" "Remove r s e = Inr (r', s')"
  shows "store_inv s'"
proof (cases "Contains s e")
  case True
  have ei: "entities s ! unat (sparse s ! unat e) = e" 
    and i: "unat (sparse s ! unat e) < length (entities s)"
    using store_inv_entity_at [OF assms(1) True] by simp_all
  from assms(2) show ?thesis
    unfolding Remove_present [OF assms(1) True]
    using store_inv_swap_pop [OF assms(1) i, of "last (components s)"] ei
    by auto
next
  case False
  then show ?thesis using assms by (auto simp: Remove_def Contains_iff)
qed

section \<open>What Create and Remove do on a coherent store\<close>

lemma GetIndex_Contains:
  "Contains s e \<Longrightarrow> GetIndex s e = sparse s ! unat e"
  by (simp add: GetIndex_def Contains_iff)

lemma GetIndex_NF_iff: "GetIndex s e = NOT_FOUND \<longleftrightarrow> \<not> Contains s e"
  by (auto simp: GetIndex_def Contains_iff)

lemma Create_ok:
  assumes inv: "store_inv s" and nz: "e \<noteq> 0" and fresh: "\<not> Contains s e"
    and room: "unat e < length (sparse s) \<or> unat e + 5000 < 2 ^ 32"
  shows "\<exists>s'. Create dflt r s e = Inr (OnComponentAdded r e, s', length (components s)) \<and>
           components s' = components s @ [dflt] \<and> entities s' = entities s @ [e] \<and>
           length (sparse s') =
             (if unat e < length (sparse s) then length (sparse s) else unat e + 5000) \<and>
           (\<forall>x. x < length (sparse s) \<longrightarrow> x \<noteq> unat e \<longrightarrow> sparse s' ! x = sparse s ! x) \<and>
           (\<forall>x. length (sparse s) \<le> x \<longrightarrow> x < length (sparse s') \<longrightarrow> x \<noteq> unat e \<longrightarrow>
                sparse s' ! x = NOT_FOUND) \<and>
           sparse s' ! unat e = of_nat (length (components s)) \<and>
           store_inv s'"
proof (cases "unat e < length (sparse s)")
  case True
  let ?s' = "s\<lparr>components := components s @ [dflt], entities := entities s @ [e],
                 sparse := (sparse s)[unat e := of_nat (length (components s))]\<rparr>"
  have c: "Create dflt r s e = Inr (OnComponentAdded r e, ?s', length (components s))"
    using True nz fresh by (simp add: Create_def INVALID_ENTITY_def Contains_iff)
  have "store_inv ?s'" by (rule store_inv_Create [OF inv c])
  with c True show ?thesis by simp
next
  case False
  with room have r: "unat e + 5000 < 2 ^ 32" by simp
  have u: "unat (e + 5000) = unat e + 5000"
    using r by (simp add: unat_add_lem [THEN iffD1])
  let ?sp = "sparse s @ replicate (unat e + 5000 - length (sparse s)) NOT_FOUND"
  let ?s' = "s\<lparr>components := components s @ [dflt], entities := entities s @ [e],
                 sparse := ?sp[unat e := of_nat (length (components s))]\<rparr>"
  have rs: "resize (unat (e + 5000)) NOT_FOUND (sparse s) = ?sp"
    using False by (simp add: resize_def u)
  have c: "Create dflt r s e = Inr (OnComponentAdded r e, ?s', length (components s))"
    using False nz by (simp add: Create_def INVALID_ENTITY_def rs Let_def nth_append)
  have "store_inv ?s'" by (rule store_inv_Create [OF inv c])
  with c False show ?thesis by (simp add: nth_append)
qed

lemma Remove_spec:
  assumes inv: "store_inv s" and c: "Contains s e"
  shows "\<exists>s'. Remove r s e = Inr (OnComponentRemoved r e, s') \<and>
     length (components s') = length (components s) - 1 \<and>
     length (entities s') = length (entities s) - 1 \<and>
     (unat (GetIndex s e) \<noteq> length (entities s) - 1 \<longrightarrow>
        components s' ! unat (GetIndex s e) = last (components s) \<and>
        entities s' ! unat (GetIndex s e) = last (entities s) \<and>
        GetIndex s' (last (entities s)) = GetIndex s e) \<and>
     (\<forall>k. k < length (entities s) - 1 \<longrightarrow> k \<noteq> unat (GetIndex s e) \<longrightarrow>
        components s' ! k = components s ! k \<and> entities s' ! k = entities s ! k) \<and>
     GetIndex s' e = NOT_FOUND \<and> \<not> Contains s' e \<and>
     length (sparse s') = length (sparse s) \<and>
     (\<forall>x. x < length (sparse s) \<longrightarrow> x \<noteq> unat e \<longrightarrow> x \<noteq> unat (last (entities s)) \<longrightarrow>
        sparse s' ! x = sparse s ! x) \<and>
     store_inv s'"
proof -
  let ?i = "unat (sparse s ! unat e)"
  let ?n = "length (entities s)"
  let ?s' = "s\<lparr>components := butlast ((components s)[?i := last (components s)]),
            entities := butlast ((entities s)[?i := last (entities s)]),
            sparse := ((sparse s)[unat (last (entities s)) := sparse s ! unat e])
                        [unat e := NOT_FOUND]\<rparr>"
  have R: "Remove r s e = Inr (OnComponentRemoved r e, ?s')"
    by (rule Remove_present [OF inv c])
  have i: "?i < ?n" and ei: "entities s ! ?i = e"
    using store_inv_entity_at [OF inv c] by simp_all
  have len: "length (components s) = ?n" using inv by (simp add: store_inv_def)
  have gi: "GetIndex s e = sparse s ! unat e" by (rule GetIndex_Contains [OF c])
  have eb: "unat e < length (sparse s)" using c by (simp add: Contains_iff)
  have inv': "store_inv ?s'" by (rule store_inv_Remove [OF inv R])
  have ne: "entities s \<noteq> []" using i by (cases "entities s") simp_all
  have lastb: "unat (last (entities s)) < length (sparse s)"
    using store_inv_index [OF inv, of "?n - 1"] ne by (simp add: last_conv_nth)
  have nc: "\<not> Contains ?s' e" using eb by (simp add: Contains_iff)
  have moved: "?i \<noteq> ?n - 1 \<Longrightarrow> GetIndex ?s' (last (entities s)) = sparse s ! unat e"
  proof -
    assume a: "?i \<noteq> ?n - 1"
    have "last (entities s) \<noteq> e"
    proof
      assume "last (entities s) = e"
      then have "entities s ! (?n - 1) = entities s ! ?i" using ne ei by (simp add: last_conv_nth)
      moreover have "distinct (entities s)" using inv by (simp add: store_inv_def)
      ultimately show False using a i ne by (simp add: nth_eq_iff_index_eq)
    qed
    then have "unat (last (entities s)) \<noteq> unat e" by (simp add: word_unat_eq_iff)
    then show ?thesis using lastb by (simp add: GetIndex_def)
  qed
  show ?thesis
    apply (rule exI [of _ ?s'])
    using R i len gi eb inv' nc moved
    by (simp add: nth_butlast GetIndex_NF_iff)
qed

section \<open>The three-entity scenario\<close>

lemma store_inv_write_component:
  "store_inv s \<Longrightarrow> write_component s i x = Inr s' \<Longrightarrow> store_inv s'"
  by (auto simp: write_component_def store_inv_def split: if_splits)

lemma create_and_set_ok:
  assumes inv: "store_inv s" and nz: "e \<noteq> 0" and fresh: "e \<notin> set (entities s)"
    and room: "unat e < length (sparse s) \<or> unat e + 5000 < 2 ^ 32"
  shows "\<exists>s'. create_and_set dflt r s e x = Inr (OnComponentAdded r e, s') \<and>
           components s' = components s @ [x] \<and> entities s' = entities s @ [e] \<and>
           store_inv s'"
proof -
  from fresh inv have nc: "\<not> Contains s e" by (simp add: Contains_iff_mem)
  from Create_ok [OF inv nz nc room, of dflt r] obtain s1 where
    c: "Create dflt r s e = Inr (OnComponentAdded r e, s1, length (components s))"
    and cs: "components s1 = components s @ [dflt]" and es: "entities s1 = entities s @ [e]"
    and i1: "store_inv s1" by blast
  let ?s' = "s1\<lparr>components := (components s1)[length (components s) := x]\<rparr>"
  have w: "write_component s1 (length (components s)) x = Inr ?s'"
    by (simp add: write_component_def cs)
  have "store_inv ?s'" by (rule store_inv_write_component [OF i1 w])
  then show ?thesis using c w cs es
    by (intro exI [of _ ?s']) (simp add: create_and_set_def bind_err_def)
qed

lemma remove_first_scenario_spec:
  "\<exists>s3 s4 r7 r8.
     remove_first_scenario n dflt X1 X2 X3 = Inr (s3, s4, r7, 1, r8) \<and>
     entities s3 = [1, 2, 3] \<and> components s3 = [X1, X2, X3] \<and>
     entities s4 = [3, 2] \<and> components s4 = [X3, X2] \<and>
     GetIndex s4 1 = NOT_FOUND \<and> m_freeIDs r7 = [1] \<and> m_reusedIDCount r8 = 1"
proof -
  define r3 where "r3 = ECSManager_init\<lparr>m_nextID := 4\<rparr>"
  have ce: "CreateEntity ECSManager_init = (1, ECSManager_init\<lparr>m_nextID := 2\<rparr>)"
    "CreateEntity (ECSManager_init\<lparr>m_nextID := 2\<rparr>) = (2, ECSManager_init\<lparr>m_nextID := 3\<rparr>)"
    "CreateEntity (ECSManager_init\<lparr>m_nextID := 3\<rparr>) = (3, r3)"
    by (simp_all add: CreateEntity_def ECSManager_init_def INVALID_ENTITY_def r3_def)
  define r4 where "r4 = OnComponentAdded r3 1"
  define r5 where "r5 = OnComponentAdded r4 2"
  define r6 where "r6 = OnComponentAdded r5 3"
  let ?s0 = "ComponentManager_reserved n :: 'a ComponentManager"
  have i0: "store_inv ?s0" by (rule store_inv_reserved)
  have e0: "entities ?s0 = []" "components ?s0 = []"
    by (simp_all add: ComponentManager_reserved_def)
  from create_and_set_ok [OF i0, of 1 dflt r3 X1] e0 obtain s1 where
    c1: "create_and_set dflt r3 ?s0 1 X1 = Inr (r4, s1)"
    and s1: "components s1 = [X1]" "entities s1 = [1]" "store_inv s1"
    by (auto simp: r4_def)
  from create_and_set_ok [OF s1(3), of 2 dflt r4 X2] s1 obtain s2 where
    c2: "create_and_set dflt r4 s1 2 X2 = Inr (r5, s2)"
    and s2: "components s2 = [X1, X2]" "entities s2 = [1, 2]" "store_inv s2"
    by (auto simp: r5_def)
  from create_and_set_ok [OF s2(3), of 3 dflt r5 X3] s2 obtain s3 where
    c3: "create_and_set dflt r5 s2 3 X3 = Inr (r6, s3)"
    and s3: "components s3 = [X1, X2, X3]" "entities s3 = [1, 2, 3]" "store_inv s3"
    by (auto simp: r6_def)
  have c: "Contains s3 1" using s3 by (simp add: Contains_iff_mem)
  have ix: "sparse s3 ! unat (1 :: Entity) = 0"
    using store_inv_index [OF s3(3), of 0] s3 by simp
  define s4 where "s4 =
     s3\<lparr>components := [X3, X2], entities := [3, 2],
        sparse := ((sparse s3)[unat (3 :: Entity) := 0])[unat (1 :: Entity) := NOT_FOUND]\<rparr>"
  define r7 where "r7 = OnComponentRemoved r6 1"
  have rm: "Remove r6 s3 1 = Inr (r7, s4)"
    unfolding Remove_present [OF s3(3) c] using ix by (simp add: s3 s4_def r7_def)
  have gi: "GetIndex s4 1 = NOT_FOUND"
    by (simp add: GetIndex_def s4_def)
  have r7: "m_freeIDs r7 = [1]" "m_reusedIDCount r7 = 0"
    by (simp_all add: r7_def r6_def r5_def r4_def r3_def OnComponentRemoved_def
        OnComponentAdded_def ECSManager_init_def)
  have c4: "CreateEntity r7 = (1, r7\<lparr>m_freeIDs := [], m_reusedIDCount := 1\<rparr>)"
    using r7 by (simp add: CreateEntity_def)
  have "remove_first_scenario n dflt X1 X2 X3 =
          Inr (s3, s4, r7, 1, r7\<lparr>m_freeIDs := [], m_reusedIDCount := 1\<rparr>)"
    by (simp add: remove_first_scenario_def ce c1 c2 c3 rm c4 bind_err_def)
  then show ?thesis using s3 gi r7 by (auto simp: s4_def)
qed

section \<open>Remove_KeepSorted: the shifting loops\<close>

lemma set_component_simps [simp]:
  "components (set_component i c s) = (components s)[i := c]"
  "entities (set_component i c s) = entities s"
  "sparse (set_component i c s) = sparse s"
  by (simp_all add: set_component_def)

lemma set_entity_simps [simp]:
  "components (set_entity i e s) = components s"
  "entities (set_entity i e s) = (entities s)[i := e]"
  "length (sparse (set_entity i e s)) = length (sparse s)"
  by (simp_all add: set_entity_def Let_def)

lemma sparse_set_entity:
  "i < length (entities s) \<Longrightarrow> unat e < length (sparse s) \<Longrightarrow>
   sparse (set_entity i e s) = (sparse s)[unat e := of_nat i]"
  by (simp add: set_entity_def Let_def)

lemma component_shift_loop:
  assumes "a < m" "m \<le> length (components s)"
  shows "entities (fold (\<lambda>i t. set_component (i - 1) (components t ! i) t) [Suc a ..< m] s) = entities s \<and>
         sparse (fold (\<lambda>i t. set_component (i - 1) (components t ! i) t) [Suc a ..< m] s) = sparse s \<and>
         length (components (fold (\<lambda>i t. set_component (i - 1) (components t ! i) t) [Suc a ..< m] s))
           = length (components s) \<and>
         (\<forall>k < length (components s).
            components (fold (\<lambda>i t. set_component (i - 1) (components t ! i) t) [Suc a ..< m] s) ! k =
              (if a \<le> k \<and> Suc k < m then components s ! Suc k else components s ! k))"
  using assms
proof (induction m)
  case 0
  then show ?case by simp
next
  case (Suc m)
  show ?case
  proof (cases "a = m")
    case True
    then show ?thesis by auto
  next
    case False
    with Suc.prems have am: "a < m" and ml: "m \<le> length (components s)" "m < length (components s)"
      by simp_all
    note IH = Suc.IH [OF am ml(1)]
    have up: "[Suc a ..< Suc m] = [Suc a ..< m] @ [m]" using am by simp
    show ?thesis
      unfolding up using IH am ml
      by (auto simp: nth_list_update)
  qed
qed

lemma entity_shift_loop:
  assumes "a < m" "m \<le> length (entities s)" "distinct (entities s)"
    "\<forall>x \<in> set (entities s). unat x < length (sparse s)"
  shows "components (fold (\<lambda>i t. set_entity (i - 1) (entities t ! i) t) [Suc a ..< m] s) = components s \<and>
         length (entities (fold (\<lambda>i t. set_entity (i - 1) (entities t ! i) t) [Suc a ..< m] s))
           = length (entities s) \<and>
         length (sparse (fold (\<lambda>i t. set_entity (i - 1) (entities t ! i) t) [Suc a ..< m] s))
           = length (sparse s) \<and>
         (\<forall>k < length (entities s).
            entities (fold (\<lambda>i t. set_entity (i - 1) (entities t ! i) t) [Suc a ..< m] s) ! k =
              (if a \<le> k \<and> Suc k < m then entities s ! Suc k else entities s ! k)) \<and>
         (\<forall>k. a \<le> k \<and> Suc k < m \<longrightarrow>
            sparse (fold (\<lambda>i t. set_entity (i - 1) (entities t ! i) t) [Suc a ..< m] s)
              ! unat (entities s ! Suc k) = of_nat k) \<and>
         (\<forall>x. (\<forall>k. a \<le> k \<and> Suc k < m \<longrightarrow> x \<noteq> unat (entities s ! Suc k)) \<longrightarrow>
            sparse (fold (\<lambda>i t. set_entity (i - 1) (entities t ! i) t) [Suc a ..< m] s) ! x
              = sparse s ! x)"
  using assms(1,2)
proof (induction m)
  case 0
  then show ?case by simp
next
  case (Suc m)
  show ?case
  proof (cases "a = m")
    case True
    then show ?thesis by auto
  next
    case False
    with Suc.prems have am: "a < m" and ml: "m \<le> length (entities s)" "m < length (entities s)"
      by simp_all
    define t where "t = fold (\<lambda>i t. set_entity (i - 1) (entities t ! i) t) [Suc a ..< m] s"
    note IH = Suc.IH [OF am ml(1), folded t_def]
    have up: "fold (\<lambda>i t. set_entity (i - 1) (entities t ! i) t) [Suc a ..< Suc m] s =
              set_entity (m - 1) (entities t ! m) t"
      using am by (simp add: t_def)
    have em: "entities t ! m = entities s ! m" using IH ml by simp
    have b: "unat (entities s ! m) < length (sparse t)"
      using assms(4) ml IH by simp
    have m1: "m - 1 < length (entities t)" using IH ml by simp
    have sp: "sparse (set_entity (m - 1) (entities t ! m) t) =
              (sparse t)[unat (entities s ! m) := of_nat (m - 1)]"
      using sparse_set_entity [OF m1, of "entities s ! m"] b em by simp
    have inj: "\<And>k. Suc k < m \<Longrightarrow> unat (entities s ! Suc k) \<noteq> unat (entities s ! m)"
      using assms(3) ml by (simp add: word_unat_eq_iff [symmetric] nth_eq_iff_index_eq)
    have c1: "\<forall>k < length (entities s).
            entities (set_entity (m - 1) (entities t ! m) t) ! k =
              (if a \<le> k \<and> Suc k < Suc m then entities s ! Suc k else entities s ! k)"
      using IH am ml em by (auto simp: nth_list_update)
    have c2: "\<forall>k. a \<le> k \<and> Suc k < Suc m \<longrightarrow>
            sparse (set_entity (m - 1) (entities t ! m) t) ! unat (entities s ! Suc k) = of_nat k"
    proof (intro allI impI)
      fix k assume k: "a \<le> k \<and> Suc k < Suc m"
      show "sparse (set_entity (m - 1) (entities t ! m) t) ! unat (entities s ! Suc k) = of_nat k"
      proof (cases "Suc k = m")
        case True
        have g: "sparse (set_entity (m - 1) (entities t ! m) t) ! unat (entities s ! m) = of_nat (m - 1)"
          unfolding sp using b by simp
        show ?thesis using g True by auto
      next
        case False
        with k have "Suc k < m" by simp
        then show ?thesis unfolding sp using inj [of k] IH k by simp
      qed
    qed
    have c3: "\<forall>x. (\<forall>k. a \<le> k \<and> Suc k < Suc m \<longrightarrow> x \<noteq> unat (entities s ! Suc k)) \<longrightarrow>
            sparse (set_entity (m - 1) (entities t ! m) t) ! x = sparse s ! x"
    proof (intro allI impI)
      fix x assume x: "\<forall>k. a \<le> k \<and> Suc k < Suc m \<longrightarrow> x \<noteq> unat (entities s ! Suc k)"
      from x [rule_format, of "m - 1"] am have "x \<noteq> unat (entities s ! m)" by simp
      moreover have "sparse t ! x = sparse s ! x" using IH x by simp
      ultimately show "sparse (set_entity (m - 1) (entities t ! m) t) ! x = sparse s ! x"
        unfolding sp by simp
    qed
    show ?thesis unfolding up using IH c1 c2 c3 by simp
  qed
qed

lemma butlast_shifted_eq:
  assumes "length ys = length xs" "i < length xs"
    "\<forall>k < length xs. ys ! k = (if i \<le> k \<and> Suc k < length xs then xs ! Suc k else xs ! k)"
  shows "butlast ys = take i xs @ drop (Suc i) xs"
proof (rule nth_equalityI)
  show "length (butlast ys) = length (take i xs @ drop (Suc i) xs)"
    using assms(1,2) by simp
next
  fix k assume "k < length (butlast ys)"
  then have k: "k < length xs - 1" using assms(1) by simp
  then have sk: "Suc k < length xs" "k < length xs" by simp_all
  have "butlast ys ! k = ys ! k" using k assms(1) by (simp add: nth_butlast)
  also have "\<dots> = (if i \<le> k then xs ! Suc k else xs ! k)" using assms(3) sk by simp
  also have "\<dots> = (take i xs @ drop (Suc i) xs) ! k"
    using k assms(2) by (simp add: nth_append)
  finally show "butlast ys ! k = (take i xs @ drop (Suc i) xs) ! k" .
qed

lemma nth_delete:
  "i < length xs \<Longrightarrow> k < length xs - 1 \<Longrightarrow>
   (take i xs @ drop (Suc i) xs) ! k = (if k < i then xs ! k else xs ! Suc k)"
  by (simp add: nth_append)

lemma store_inv_delete:
  assumes inv: "store_inv s" and i: "i < length (entities s)"
    and lc: "length cs' = length (entities s) - 1"
    and lsp: "length sp' = length (sparse s)"
    and moved: "\<forall>k. i \<le> k \<and> Suc k < length (entities s) \<longrightarrow>
                  sp' ! unat (entities s ! Suc k) = of_nat k"
    and kept: "\<forall>x. (\<forall>k. i \<le> k \<and> Suc k < length (entities s) \<longrightarrow> x \<noteq> unat (entities s ! Suc k)) \<longrightarrow>
                  sp' ! x = sparse s ! x"
  shows "store_inv (s\<lparr>components := cs',
                       entities := take i (entities s) @ drop (Suc i) (entities s),
                       sparse := sp'[unat (entities s ! i) := NOT_FOUND]\<rparr>)"
proof -
  define E where "E = entities s"
  define sp where "sp = sparse s"
  define n where "n = length E"
  define e where "e = E ! i"
  define E' where "E' = take i E @ drop (Suc i) E"
  define sp'' where "sp'' = sp'[unat e := NOT_FOUND]"
  have dist: "distinct E" using inv by (simp add: store_inv_def E_def)
  have i: "i < n" using i by (simp add: n_def E_def)
  have lenE': "length E' = n - 1" using i by (simp add: E'_def n_def)
  have nth': "\<And>k. k < n - 1 \<Longrightarrow> E' ! k = (if k < i then E ! k else E ! Suc k)"
    using i by (simp add: E'_def n_def nth_append)
  have inj: "\<And>j k. j < n \<Longrightarrow> k < n \<Longrightarrow> unat (E ! j) = unat (E ! k) \<longleftrightarrow> j = k"
    using dist by (auto simp: distinct_conv_nth n_def word_unat_eq_iff [symmetric])
  have old: "\<And>k. k < n \<Longrightarrow> unat (E ! k) < length sp \<and> sp ! unat (E ! k) = of_nat k"
    using store_inv_index [OF inv] by (simp add: E_def sp_def n_def)
  have unm: "\<And>x. x < length sp \<Longrightarrow> x \<notin> unat ` set E \<Longrightarrow> sp ! x = NOT_FOUND"
    using store_inv_unmapped [OF inv] by (simp add: E_def sp_def)
  have moved: "\<And>k. i \<le> k \<Longrightarrow> Suc k < n \<Longrightarrow> sp' ! unat (E ! Suc k) = of_nat k"
    using moved by (simp add: E_def n_def)
  have kept: "\<And>x. (\<And>k. i \<le> k \<Longrightarrow> Suc k < n \<Longrightarrow> x \<noteq> unat (E ! Suc k)) \<Longrightarrow> sp' ! x = sp ! x"
    using kept by (simp add: E_def n_def sp_def)
  have lsp: "length sp' = length sp" "length sp'' = length sp"
    using lsp by (simp_all add: sp_def sp''_def)
  have d': "distinct E'"
    using dist set_take_disj_set_drop_if_distinct [OF dist, of i "Suc i"]
    by (simp add: E'_def)
  have three: "\<forall>k \<in> {0 ..< n - 1}. unat (E' ! k) < length sp'' \<and> sp'' ! unat (E' ! k) = of_nat k"
  proof
    fix k assume "k \<in> {0 ..< n - 1}"
    then have k: "k < n - 1" by simp
    then have b: "k < n" "Suc k < n" by simp_all
    show "unat (E' ! k) < length sp'' \<and> sp'' ! unat (E' ! k) = of_nat k"
    proof (cases "k < i")
      case True
      have ek: "E' ! k = E ! k" using True nth' [OF k] by simp
      have ne: "unat (E ! k) \<noteq> unat e" using True inj [OF b(1) i] by (simp add: e_def)
      have "\<And>j. i \<le> j \<Longrightarrow> Suc j < n \<Longrightarrow> unat (E ! k) \<noteq> unat (E ! Suc j)"
        using True inj [OF b(1)] by simp
      then have "sp' ! unat (E ! k) = sp ! unat (E ! k)" by (rule kept)
      then show ?thesis using old [OF b(1)] ne by (simp add: ek sp''_def lsp)
    next
      case False
      then have ik: "i \<le> k" by simp
      have ek: "E' ! k = E ! Suc k" using False nth' [OF k] by simp
      have ne: "unat (E ! Suc k) \<noteq> unat e" using ik inj [OF b(2) i] by (simp add: e_def)
      show ?thesis using old [OF b(2)] ne moved [OF ik b(2)] by (simp add: ek sp''_def lsp)
    qed
  qed
  have four: "\<forall>x \<in> {0 ..< length sp''}. x \<notin> unat ` set E' \<longrightarrow> sp'' ! x = NOT_FOUND"
  proof (intro ballI impI)
    fix x assume "x \<in> {0 ..< length sp''}" and nin: "x \<notin> unat ` set E'"
    then have x: "x < length sp" by (simp add: lsp)
    have notin: "\<And>k. k < n - 1 \<Longrightarrow> x \<noteq> unat (E' ! k)"
    proof
      fix k assume "k < n - 1" "x = unat (E' ! k)"
      then have "x \<in> unat ` set E'" by (auto intro!: imageI nth_mem simp: lenE')
      with nin show False by simp
    qed
    show "sp'' ! x = NOT_FOUND"
    proof (cases "x = unat e")
      case True
      then show ?thesis using x by (simp add: sp''_def lsp)
    next
      case xe: False
      have a: "\<And>k. i \<le> k \<Longrightarrow> Suc k < n \<Longrightarrow> x \<noteq> unat (E ! Suc k)"
      proof -
        fix k assume ik: "i \<le> k" and sk: "Suc k < n"
        then have k: "k < n - 1" by simp
        from notin [OF k] nth' [OF k] ik show "x \<noteq> unat (E ! Suc k)" by simp
      qed
      have "x \<notin> unat ` set E"
      proof
        assume "x \<in> unat ` set E"
        then obtain k where k: "k < n" "x = unat (E ! k)"
          by (auto simp: in_set_conv_nth n_def)
        with xe have ki: "k \<noteq> i" by (auto simp: e_def)
        show False
        proof (cases "k < i")
          case True
          then have k': "k < n - 1" using i by simp
          from notin [OF k'] nth' [OF k'] True k show False by simp
        next
          case False
          with ki have "i \<le> k - 1" "Suc (k - 1) < n" "Suc (k - 1) = k" using k by simp_all
          with a [of "k - 1"] k show False by simp
        qed
      qed
      then have "sp ! x = NOT_FOUND" using unm x by simp
      then show ?thesis using xe kept [OF a] by (simp add: sp''_def)
    qed
  qed
  have "store_inv (s\<lparr>components := cs', entities := E', sparse := sp''\<rparr>)"
    using lc d' three four by (simp add: store_inv_def lenE' n_def E_def)
  then show ?thesis by (simp add: E'_def sp''_def e_def E_def)
qed

lemma Remove_KeepSorted_spec:
  assumes inv: "store_inv s" and c: "Contains s e"
  shows "\<exists>s'. Remove_KeepSorted r s e = Inr (OnComponentRemoved r e, s') \<and>
     components s' = take (unat (GetIndex s e)) (components s) @
                     drop (Suc (unat (GetIndex s e))) (components s) \<and>
     entities s' = take (unat (GetIndex s e)) (entities s) @
                   drop (Suc (unat (GetIndex s e))) (entities s) \<and>
     length (sparse s') = length (sparse s) \<and>
     (\<forall>k. k < length (entities s') \<longrightarrow> GetIndex s' (entities s' ! k) = of_nat k) \<and>
     GetIndex s' e = NOT_FOUND \<and> \<not> Contains s' e \<and>
     (\<forall>x. x < length (sparse s) \<longrightarrow> x \<notin> unat ` set (entities s) \<longrightarrow>
          sparse s' ! x = sparse s ! x) \<and>
     store_inv s'"
proof -
  define i where "i = unat (sparse s ! unat e)"
  define n where "n = length (entities s)"
  have i: "i < n" and ei: "entities s ! i = e"
    using store_inv_entity_at [OF inv c] by (simp_all add: i_def n_def)
  have len: "length (components s) = n" and dist: "distinct (entities s)"
    using inv by (simp_all add: store_inv_def n_def)
  have n32: "n \<le> 2 ^ 32" using store_inv_length_le [OF inv] by (simp add: n_def)
  have npos: "0 < n" using i by simp
  have gi: "GetIndex s e = sparse s ! unat e" by (rule GetIndex_Contains [OF c])
  have eb: "unat e < length (sparse s)" "sparse s ! unat e \<noteq> NOT_FOUND"
    using c by (simp_all add: Contains_iff)
  have bnd: "\<forall>x \<in> set (entities s). unat x < length (sparse s)"
    using store_inv_index [OF inv] by (auto simp: in_set_conv_nth)
  have cond: "sparse s ! unat e < of_nat (length (components s)) - 1 \<longleftrightarrow> i < n - 1"
    using unat_size_minus_one [OF npos n32] len by (simp add: word_less_nat_alt i_def)
  define sa where "sa = fold (\<lambda>i t. set_component (i - 1) (components t ! i) t) [Suc i ..< n] s"
  define sb where "sb = fold (\<lambda>i t. set_entity (i - 1) (entities t ! i) t) [Suc i ..< n] sa"
  have A: "entities sa = entities s" "sparse sa = sparse s" "length (components sa) = n"
    "\<forall>k < n. components sa ! k = (if i \<le> k \<and> Suc k < n then components s ! Suc k else components s ! k)"
    using component_shift_loop [of i n s] i len by (simp_all add: sa_def)
  have B: "components sb = components sa" "length (entities sb) = n"
    "length (sparse sb) = length (sparse s)"
    "\<forall>k < n. entities sb ! k = (if i \<le> k \<and> Suc k < n then entities s ! Suc k else entities s ! k)"
    "\<forall>k. i \<le> k \<and> Suc k < n \<longrightarrow> sparse sb ! unat (entities s ! Suc k) = of_nat k"
    "\<forall>x. (\<forall>k. i \<le> k \<and> Suc k < n \<longrightarrow> x \<noteq> unat (entities s ! Suc k)) \<longrightarrow> sparse sb ! x = sparse s ! x"
    using entity_shift_loop [of i n sa] i dist bnd A(1,2) by (simp_all add: sb_def n_def)
  have s1: "(if sparse s ! unat e < of_nat (length (components s)) - 1 then
               let sa = fold (\<lambda>i t. set_component (i - 1) (components t ! i) t)
                          [unat (sparse s ! unat e) + 1 ..< length (components s)] s
               in fold (\<lambda>i t. set_entity (i - 1) (entities t ! i) t)
                    [unat (sparse s ! unat e) + 1 ..< length (entities sa)] sa
             else s) = sb"
  proof (cases "i < n - 1")
    case True
    then show ?thesis using cond len A(1) by (simp add: sb_def sa_def i_def n_def Let_def)
  next
    case False
    then have "Suc i = n" using i by simp
    then show ?thesis using False cond by (simp add: sb_def sa_def)
  qed
  define s' where "s' = sb\<lparr>components := butlast (components sb), entities := butlast (entities sb),
                           sparse := (sparse sb)[unat e := NOT_FOUND]\<rparr>"
  have ne: "components sb \<noteq> []" "entities sb \<noteq> []" using B(1,2) A(3) npos by auto
  have R: "Remove_KeepSorted r s e = Inr (OnComponentRemoved r e, s')"
    using eb i ei ne s1 B(3)
    by (simp add: Remove_KeepSorted_def Let_def i_def [symmetric] n_def [symmetric] s'_def)
  have cs: "components s' = take i (components s) @ drop (Suc i) (components s)"
    using butlast_shifted_eq [of "components sa" "components s" i] A(3,4) len i
    by (simp add: s'_def B(1))
  have es: "entities s' = take i (entities s) @ drop (Suc i) (entities s)"
    using butlast_shifted_eq [of "entities sb" "entities s" i] B(2,4) i
    by (simp add: s'_def n_def)
  have sps: "sparse s' = (sparse sb)[unat e := NOT_FOUND]" by (simp add: s'_def)
  have rest: "s' = s\<lparr>components := components s',
                       entities := take i (entities s) @ drop (Suc i) (entities s),
                       sparse := (sparse sb)[unat (entities s ! i) := NOT_FOUND]\<rparr>"
    by (rule ComponentManager.equality) (simp_all add: es sps ei)
  have lc: "length (components s') = length (entities s) - 1"
    using i len by (simp add: cs n_def)
  have inv': "store_inv s'"
    using store_inv_delete [OF inv _ lc B(3), of i] i B(5,6)
    by (subst rest) (simp add: n_def)
  have nc: "\<not> Contains s' e" using eb B(3) by (simp add: Contains_iff s'_def)
  have idx: "\<forall>k. k < length (entities s') \<longrightarrow> GetIndex s' (entities s' ! k) = of_nat k"
    using store_inv_index [OF inv'] by (simp add: GetIndex_def)
  have keep: "\<forall>x. x < length (sparse s) \<longrightarrow> x \<notin> unat ` set (entities s) \<longrightarrow>
          sparse s' ! x = sparse s ! x"
  proof (intro allI impI)
    fix x assume x: "x < length (sparse s)" "x \<notin> unat ` set (entities s)"
    then have "\<forall>k. i \<le> k \<and> Suc k < n \<longrightarrow> x \<noteq> unat (entities s ! Suc k)"
      by (auto simp: n_def)
    then have "sparse sb ! x = sparse s ! x" using B(6) by simp
    moreover have "x \<noteq> unat e" using x(2) ei i by (auto simp: n_def)
    ultimately show "sparse s' ! x = sparse s ! x" by (simp add: s'_def)
  qed
  show ?thesis
    using R cs es inv' nc idx keep B(3)
    by (intro exI [of _ s']) (simp add: gi i_def GetIndex_NF_iff s'_def)
qed

lemma set_delete_nth:
  assumes "distinct xs" "i < length xs"
  shows "set (take i xs @ drop (Suc i) xs) = set xs - {xs ! i}"
proof -
  have xs: "xs = take i xs @ xs ! i # drop (Suc i) xs"
    using assms(2) by (rule id_take_nth_drop)
  have "distinct (take i xs @ xs ! i # drop (Suc i) xs)" using assms(1) xs by simp
  then have "xs ! i \<notin> set (take i xs)" "xs ! i \<notin> set (drop (Suc i) xs)" by auto
  moreover have "set xs = set (take i xs) \<union> {xs ! i} \<union> set (drop (Suc i) xs)"
    by (subst xs) auto
  ultimately show ?thesis by auto
qed

lemma set_swap_pop:
  assumes "distinct xs" "i < length xs"
  shows "set (butlast (xs[i := last xs])) = set xs - {xs ! i}"
proof (cases "i = length xs - 1")
  case True
  then have "butlast (xs[i := last xs]) = butlast xs" by (simp add: butlast_list_update)
  moreover have "xs = butlast xs @ [xs ! i]"
    using True assms(2) by (cases xs rule: rev_cases) (simp_all add: nth_append)
  moreover from this assms(1) have "xs ! i \<notin> set (butlast xs)"
    by (metis distinct.simps(2) distinct1_rotate rotate1.simps(2))
  ultimately show ?thesis by (metis Diff_insert_absorb Un_insert_right append_Nil2 list.simps(15) set_append)
next
  case False
  then have i: "i < length xs - 1" using assms(2) by simp
  have ne: "xs \<noteq> []" using assms(2) by auto
  have bl: "butlast (xs[i := last xs]) = (butlast xs)[i := last xs]"
    using False by (simp add: butlast_list_update)
  have xs: "xs = butlast xs @ [last xs]" using ne by simp
  have d: "distinct (butlast xs)" "last xs \<notin> set (butlast xs)"
    using assms(1) xs by (metis distinct_butlast, metis distinct.simps(2) distinct1_rotate rotate1.simps(2))
  have bi: "butlast xs ! i = xs ! i" using i by (simp add: nth_butlast)
  have "set ((butlast xs)[i := last xs]) = insert (last xs) (set (butlast xs) - {butlast xs ! i})"
    using d(1) i by (simp add: set_update_distinct)
  also have "\<dots> = set xs - {xs ! i}"
  proof -
    have "set xs = insert (last xs) (set (butlast xs))" by (subst xs) simp
    moreover have "last xs \<noteq> xs ! i" using d(2) bi i by (metis length_butlast nth_mem)
    ultimately show ?thesis using bi by auto
  qed
  finally show ?thesis using bl by simp
qed

lemma Remove_members:
  assumes inv: "store_inv s" and c: "Contains s e" and R: "Remove r s e = Inr (r', s')"
  shows "set (entities s') = set (entities s) - {e} \<and> r' = OnComponentRemoved r e"
proof -
  have i: "unat (sparse s ! unat e) < length (entities s)"
    and ei: "entities s ! unat (sparse s ! unat e) = e"
    using store_inv_entity_at [OF inv c] by simp_all
  have d: "distinct (entities s)" using inv by (simp add: store_inv_def)
  have eq: "r' = OnComponentRemoved r e"
    "entities s' = butlast ((entities s)[unat (sparse s ! unat e) := last (entities s)])"
    using R Remove_present [OF inv c, of r] by auto
  have "set (entities s') = set (entities s) - {entities s ! unat (sparse s ! unat e)}"
    unfolding eq(2) by (rule set_swap_pop [OF d i])
  then show ?thesis using eq(1) ei by simp
qed

section \<open>The registry: allocation, reuse and reference counts\<close>

lemma CreateEntities_fresh:
  "m_freeIDs r = [] \<Longrightarrow>
   CreateEntities n r =
     (map (\<lambda>k. m_nextID r + of_nat k) [0 ..< n], r\<lparr>m_nextID := m_nextID r + of_nat n\<rparr>)"
proof (induction n arbitrary: r)
  case 0
  then show ?case by simp
next
  case (Suc n)
  let ?r' = "r\<lparr>m_nextID := m_nextID r + 1\<rparr>"
  have ce: "CreateEntity r = (m_nextID r, ?r')" using Suc.prems by (simp add: CreateEntity_def)
  have f: "m_freeIDs ?r' = []" using Suc.prems by simp
  have m: "map (\<lambda>k. m_nextID r + of_nat k) [0 ..< Suc n] =
           m_nextID r # map (\<lambda>k. m_nextID r + 1 + of_nat k) [0 ..< n]"
    by (simp add: upt_conv_Cons map_Suc_upt [symmetric] add.assoc del: upt_Suc)
  show ?case
    unfolding m by (simp add: ce Suc.IH [OF f] add.assoc del: upt_Suc)
qed

lemma CreateEntities_reuse:
  "j \<le> length (m_freeIDs r) \<Longrightarrow>
   CreateEntities j r =
     (take j (rev (m_freeIDs r)),
      r\<lparr>m_freeIDs := take (length (m_freeIDs r) - j) (m_freeIDs r),
        m_reusedIDCount := m_reusedIDCount r + of_nat j\<rparr>)"
proof (induction j arbitrary: r)
  case 0
  then show ?case by simp
next
  case (Suc j)
  then have ne: "m_freeIDs r \<noteq> []" by auto
  let ?r' = "r\<lparr>m_freeIDs := butlast (m_freeIDs r), m_reusedIDCount := m_reusedIDCount r + 1\<rparr>"
  have ce: "CreateEntity r = (last (m_freeIDs r), ?r')" using ne by (simp add: CreateEntity_def)
  have j: "j \<le> length (m_freeIDs ?r')" using Suc.prems by simp
  have rv: "rev (m_freeIDs r) = last (m_freeIDs r) # rev (butlast (m_freeIDs r))"
    using ne by (metis append_butlast_last_id rev.simps(2) rev_rev_ident rev_singleton_conv rev_append append_Cons append_Nil)
  have tk: "take (length (m_freeIDs r) - Suc j) (m_freeIDs r) =
            take (length (butlast (m_freeIDs r)) - j) (butlast (m_freeIDs r))"
    using Suc.prems by (simp add: take_butlast)
  show ?case
    by (simp add: ce Suc.IH [OF j] rv tk add.assoc)
qed

lemma OnComponentAdded_fields [simp]:
  "m_freeIDs (OnComponentAdded r e) = m_freeIDs r"
  "m_nextID (OnComponentAdded r e) = m_nextID r"
  "m_reusedIDCount (OnComponentAdded r e) = m_reusedIDCount r"
  by (simp_all add: OnComponentAdded_def)

lemma OnComponentRemoved_fields [simp]:
  "m_nextID (OnComponentRemoved r e) = m_nextID r"
  "m_reusedIDCount (OnComponentRemoved r e) = m_reusedIDCount r"
  by (simp_all add: OnComponentRemoved_def split: option.splits)

lemma ref_count_less: "ref_count r e < 2 ^ 64"
proof (cases "m_componentCounts r e")
  case None
  then show ?thesis by (simp add: ref_count_def)
next
  case (Some c)
  have "unat c < 2 ^ LENGTH(64)" by (rule unsigned_less)
  then show ?thesis using Some by (simp add: ref_count_def)
qed

lemma ref_count_zero_iff:
  "counts_ok r \<Longrightarrow> ref_count r e = 0 \<longleftrightarrow> m_componentCounts r e = None"
  by (auto simp: counts_ok_def ref_count_def unat_eq_0 split: option.splits)

lemma OnComponentAdded_count:
  assumes ok: "counts_ok r" and room: "ref_count r e + 1 < 2 ^ 64"
  shows "counts_ok (OnComponentAdded r e) \<and>
         ref_count (OnComponentAdded r e) x = (if x = e then ref_count r e + 1 else ref_count r x)"
proof -
  define c where "c = (case m_componentCounts r e of None \<Rightarrow> 0 | Some c \<Rightarrow> c)"
  have uc: "unat c = ref_count r e" by (simp add: c_def ref_count_def split: option.splits)
  have u1: "unat (c + 1) = unat c + 1"
    using room uc by (simp add: unat_add_lem [THEN iffD1])
  then have nz: "c + 1 \<noteq> 0" by (metis Suc_eq_plus1 nat.simps(3) unat_0)
  have m: "m_componentCounts (OnComponentAdded r e) = (m_componentCounts r)(e \<mapsto> c + 1)"
    by (simp add: OnComponentAdded_def c_def)
  show ?thesis
    using ok nz u1 uc by (auto simp: counts_ok_def ref_count_def m)
qed

lemma OnComponentRemoved_count:
  assumes ok: "counts_ok r"
  shows "counts_ok (OnComponentRemoved r e) \<and>
         ref_count (OnComponentRemoved r e) x = (if x = e then ref_count r e - 1 else ref_count r x) \<and>
         m_freeIDs (OnComponentRemoved r e) =
           (if ref_count r e = 1 then m_freeIDs r @ [e] else m_freeIDs r)"
proof (cases "m_componentCounts r e")
  case None
  then show ?thesis using ok by (simp add: OnComponentRemoved_def ref_count_def)
next
  case (Some c)
  with ok have nz: "c \<noteq> 0" by (simp add: counts_ok_def)
  have u: "unat (c - 1) = unat c - 1" using nz by (rule unat_minus_one)
  have up: "0 < unat c" using nz by (simp add: unat_gt_0)
  have z: "c - 1 = 0 \<longleftrightarrow> unat c = 1"
  proof
    assume "c - 1 = 0"
    then have "c = 1" by simp
    then show "unat c = 1" by simp
  next
    assume "unat c = 1"
    then have "unat (c - 1) = 0" using u by simp
    then show "c - 1 = 0" by (simp add: unat_eq_0)
  qed
  show ?thesis
  proof (cases "unat c = 1")
    case True
    then have "c - 1 = 0" using z by simp
    then show ?thesis
      using Some ok True by (auto simp: OnComponentRemoved_def counts_ok_def ref_count_def)
  next
    case False
    then have "c - 1 \<noteq> 0" using z by simp
    then show ?thesis
      using Some ok False u by (auto simp: OnComponentRemoved_def counts_ok_def ref_count_def)
  qed
qed

lemma foldl_Added_fields [simp]:
  "m_freeIDs (foldl OnComponentAdded r es) = m_freeIDs r"
  "m_nextID (foldl OnComponentAdded r es) = m_nextID r"
  "m_reusedIDCount (foldl OnComponentAdded r es) = m_reusedIDCount r"
  by (induction es arbitrary: r) simp_all

lemma foldl_Removed_fields [simp]:
  "m_nextID (foldl OnComponentRemoved r es) = m_nextID r"
  "m_reusedIDCount (foldl OnComponentRemoved r es) = m_reusedIDCount r"
  by (induction es arbitrary: r) simp_all

lemma foldl_Added_count:
  assumes "counts_ok r" "\<forall>e. ref_count r e + count_list es e < 2 ^ 64"
  shows "counts_ok (foldl OnComponentAdded r es) \<and>
         (\<forall>x. ref_count (foldl OnComponentAdded r es) x = ref_count r x + count_list es x)"
  using assms
proof (induction es arbitrary: r)
  case Nil
  then show ?case by simp
next
  case (Cons a es)
  have room: "ref_count r a + 1 < 2 ^ 64"
    using Cons.prems(2) [rule_format, of a] by simp
  note A = OnComponentAdded_count [OF Cons.prems(1) room]
  have ok1: "counts_ok (OnComponentAdded r a)" using A by simp
  have rc: "\<And>x. ref_count (OnComponentAdded r a) x = (if x = a then ref_count r a + 1 else ref_count r x)"
    using A by simp
  have b: "\<forall>e. ref_count (OnComponentAdded r a) e + count_list es e < 2 ^ 64"
  proof
    fix e show "ref_count (OnComponentAdded r a) e + count_list es e < 2 ^ 64"
      using Cons.prems(2) [rule_format, of e] by (auto simp: rc split: if_splits)
  qed
  from Cons.IH [OF ok1 b] show ?case by (simp add: rc)
qed

lemma foldl_Removed_count:
  assumes "counts_ok r" "distinct (m_freeIDs r)" "\<forall>e \<in> set (m_freeIDs r). ref_count r e = 0"
  shows "counts_ok (foldl OnComponentRemoved r es) \<and>
         (\<forall>x. ref_count (foldl OnComponentRemoved r es) x = ref_count r x - count_list es x) \<and>
         distinct (m_freeIDs (foldl OnComponentRemoved r es)) \<and>
         set (m_freeIDs (foldl OnComponentRemoved r es)) =
           set (m_freeIDs r) \<union> {e. 0 < ref_count r e \<and> ref_count r e \<le> count_list es e}"
  using assms
proof (induction es arbitrary: r)
  case Nil
  then show ?case by auto
next
  case (Cons a es)
  note A = OnComponentRemoved_count [OF Cons.prems(1)]
  let ?r1 = "OnComponentRemoved r a"
  have ok1: "counts_ok ?r1" using A by simp
  have rc: "\<And>x. ref_count ?r1 x = (if x = a then ref_count r a - 1 else ref_count r x)"
    using A by simp
  have fr: "m_freeIDs ?r1 = (if ref_count r a = 1 then m_freeIDs r @ [a] else m_freeIDs r)"
    using A [of a] by simp
  have d1: "distinct (m_freeIDs ?r1)"
    using Cons.prems(2,3) by (auto simp: fr)
  have z1: "\<forall>e \<in> set (m_freeIDs ?r1). ref_count ?r1 e = 0"
    using Cons.prems(3) by (auto simp: fr rc)
  note IH = Cons.IH [OF ok1 d1 z1]
  have s: "set (m_freeIDs ?r1) \<union> {e. 0 < ref_count ?r1 e \<and> ref_count ?r1 e \<le> count_list es e} =
           set (m_freeIDs r) \<union> {e. 0 < ref_count r e \<and> ref_count r e \<le> count_list (a # es) e}"
    by (auto simp: fr rc)
  show ?case using IH unfolding s by (simp add: rc)
qed

lemma counts_ok_init: "counts_ok ECSManager_init"
  by (simp add: counts_ok_def ECSManager_init_def)

lemma entity_of_nat_nonzero: "0 < k \<Longrightarrow> k < 2 ^ 32 \<Longrightarrow> (of_nat k :: Entity) \<noteq> 0"
proof
  assume k: "0 < k" "k < 2 ^ 32" and z: "(of_nat k :: Entity) = 0"
  have "unat (of_nat k :: Entity) = k" using k by (simp add: unat_of_nat)
  with z k show False by simp
qed

lemma foldl_notify_Added: "foldl notify r (map Added es) = foldl OnComponentAdded r es"
  by (induction es arbitrary: r) simp_all

lemma foldl_notify_Removed: "foldl notify r (map Removed es) = foldl OnComponentRemoved r es"
  by (induction es arbitrary: r) simp_all

lemma reuse_law_aux:
  assumes N: "N < 2 ^ 32" and adds: "set adds \<subseteq> set ids" and la: "length adds < 2 ^ 64"
    and sc: "reuse_scenario N (map Added adds @ map Removed rems) K = (ids, r3, outs, r4)"
    and K: "K = card {e \<in> set adds. count_list adds e \<le> count_list rems e}"
  shows "ids = map of_nat [1 ..< Suc N]" "0 \<notin> set ids"
    "set (m_freeIDs r3) = {e \<in> set adds. count_list adds e \<le> count_list rems e}"
    "distinct (m_freeIDs r3)" "length (m_freeIDs r3) = K" "K \<le> N"
    "outs = rev (m_freeIDs r3)" "0 \<notin> set outs"
    "m_reusedIDCount r3 = 0" "unat (m_reusedIDCount r4) = K" "m_freeIDs r4 = []"
    "\<forall>j \<le> K. fst (CreateEntities j r3) = take j outs \<and>
              m_reusedIDCount (snd (CreateEntities j r3)) = of_nat j"
proof -
  define F where "F = {e \<in> set adds. count_list adds e \<le> count_list rems e}"
  define r1 where "r1 = ECSManager_init\<lparr>m_nextID := m_nextID ECSManager_init + of_nat N\<rparr>"
  define r2 where "r2 = foldl OnComponentAdded r1 adds"
  have c1: "CreateEntities N ECSManager_init =
              (map (\<lambda>k. m_nextID ECSManager_init + of_nat k) [0 ..< N], r1)"
    unfolding r1_def by (rule CreateEntities_fresh) (simp add: ECSManager_init_def)
  have sc': "ids = map (\<lambda>k. m_nextID ECSManager_init + of_nat k) [0 ..< N]"
    "r3 = foldl OnComponentRemoved r2 rems" "CreateEntities K r3 = (outs, r4)"
    using sc
    by (auto simp: reuse_scenario_def c1 r2_def Let_def foldl_notify_Added foldl_notify_Removed
        split: prod.splits)
  have "map (\<lambda>k. m_nextID ECSManager_init + of_nat k) [0 ..< N] = map (\<lambda>k. of_nat (Suc k)) [0 ..< N]"
    by (simp add: ECSManager_init_def INVALID_ENTITY_def)
  also have "\<dots> = map of_nat (map Suc [0 ..< N])" by simp
  also have "map Suc [0 ..< N] = [1 ..< Suc N]" by (simp add: map_Suc_upt del: upt_Suc)
  finally show ids: "ids = map of_nat [1 ..< Suc N]" using sc'(1) by simp
  show z: "0 \<notin> set ids"
  proof
    assume "0 \<in> set ids"
    then obtain k where k: "k \<in> set [1 ..< Suc N]" "0 = (of_nat k :: Entity)"
      unfolding ids set_map by (rule imageE)
    from k(1) have "0 < k" "k < 2 ^ 32" using N by (simp_all del: upt_Suc)
    with entity_of_nat_nonzero [of k] k(2) show False by simp
  qed
  have ok1: "counts_ok r1" using counts_ok_init by (simp add: counts_ok_def r1_def)
  have rc1: "\<And>e. ref_count r1 e = 0" by (simp add: ref_count_def r1_def ECSManager_init_def)
  have cl: "\<And>e. count_list adds e < 2 ^ 64"
    using la count_le_length [of adds] by (meson le_less_trans)
  have A: "counts_ok r2" "\<And>x. ref_count r2 x = count_list adds x"
    using foldl_Added_count [OF ok1, of adds] cl by (simp_all add: rc1 r2_def)
  have f2: "m_freeIDs r2 = []" by (simp add: r2_def r1_def ECSManager_init_def)
  have B: "distinct (m_freeIDs r3)"
    "set (m_freeIDs r3) = {e. 0 < count_list adds e \<and> count_list adds e \<le> count_list rems e}"
    using foldl_Removed_count [OF A(1), of rems] f2 by (simp_all add: sc'(2) A(2))
  show "distinct (m_freeIDs r3)" by (rule B(1))
  have "{e. 0 < count_list adds e \<and> count_list adds e \<le> count_list rems e} = F"
    using count_list_0_iff [of adds] by (auto simp: F_def neq0_conv [symmetric] simp del: neq0_conv)
  then show sF: "set (m_freeIDs r3) = {e \<in> set adds. count_list adds e \<le> count_list rems e}"
    using B(2) by (simp add: F_def)
  show len: "length (m_freeIDs r3) = K"
    using distinct_card [OF B(1)] sF K by simp
  have "F \<subseteq> set ids" using adds by (auto simp: F_def)
  then have "card F \<le> card (set ids)" by (intro card_mono) simp_all
  also have "\<dots> \<le> length ids" by (rule card_length)
  also have "\<dots> = N" by (simp add: ids)
  finally show KN: "K \<le> N" using K by (simp add: F_def)
  have reuse: "\<And>j. j \<le> K \<Longrightarrow> CreateEntities j r3 =
     (take j (rev (m_freeIDs r3)),
      r3\<lparr>m_freeIDs := take (K - j) (m_freeIDs r3),
         m_reusedIDCount := m_reusedIDCount r3 + of_nat j\<rparr>)"
    using CreateEntities_reuse [of _ r3] len by simp
  from reuse [of K] sc'(3) len have o: "outs = rev (m_freeIDs r3)"
    and r4: "r4 = r3\<lparr>m_freeIDs := [], m_reusedIDCount := m_reusedIDCount r3 + of_nat K\<rparr>"
    by simp_all
  show "outs = rev (m_freeIDs r3)" by (rule o)
  show "0 \<notin> set outs" using z adds sF by (auto simp: o)
  show r30: "m_reusedIDCount r3 = 0"
    by (simp add: sc'(2) r2_def r1_def ECSManager_init_def)
  have "K < 2 ^ 32" using KN N by simp
  then show "unat (m_reusedIDCount r4) = K" by (simp add: r4 r30 unat_of_nat)
  show "m_freeIDs r4 = []" by (simp add: r4)
  show "\<forall>j \<le> K. fst (CreateEntities j r3) = take j outs \<and>
              m_reusedIDCount (snd (CreateEntities j r3)) = of_nat j"
    using reuse by (simp add: o r30)
qed

text \<open>The free list is the list of released entities, in the order of their release.\<close>

lemma release_order_subset:
  "set (release_order c ns) \<subseteq> {e. c e \<noteq> 0} \<union> {e. Added e \<in> set ns}"
proof (induction ns arbitrary: c)
  case Nil
  then show ?case by simp
next
  case (Cons n ns)
  show ?case
  proof (cases n)
    case (Added e)
    define c' where "c' = c(e := c e + 1)"
    have IH: "set (release_order c' ns) \<subseteq> {x. c' x \<noteq> 0} \<union> {x. Added x \<in> set ns}"
      by (rule Cons.IH)
    have s: "{x. c' x \<noteq> 0} \<subseteq> insert e {x. c x \<noteq> 0}" by (auto simp: c'_def)
    have "release_order c (n # ns) = release_order c' ns" by (simp add: Added c'_def)
    then show ?thesis using IH s Added by auto
  next
    case (Removed e)
    show ?thesis
    proof (cases "c e = 1")
      case True
      define c' where "c' = c(e := 0)"
      have IH: "set (release_order c' ns) \<subseteq> {x. c' x \<noteq> 0} \<union> {x. Added x \<in> set ns}"
        by (rule Cons.IH)
      have s: "{x. c' x \<noteq> 0} \<subseteq> {x. c x \<noteq> 0}" by (auto simp: c'_def split: if_splits)
      have "release_order c (n # ns) = e # release_order c' ns"
        using True by (simp add: Removed c'_def)
      moreover have "e \<in> {x. c x \<noteq> 0}" using True by simp
      ultimately show ?thesis using IH s Removed by auto
    next
      case False
      define c' where "c' = c(e := c e - 1)"
      have IH: "set (release_order c' ns) \<subseteq> {x. c' x \<noteq> 0} \<union> {x. Added x \<in> set ns}"
        by (rule Cons.IH)
      have s: "{x. c' x \<noteq> 0} \<subseteq> {x. c x \<noteq> 0}" by (auto simp: c'_def split: if_splits)
      have "release_order c (n # ns) = release_order c' ns"
        using False by (simp add: Removed c'_def)
      then show ?thesis using IH s Removed by auto
    qed
  qed
qed

lemma notify_release:
  "counts_ok r \<Longrightarrow> \<forall>e. ref_count r e + length ns < 2 ^ 64 \<Longrightarrow>
   m_freeIDs (foldl notify r ns) = m_freeIDs r @ release_order (ref_count r) ns \<and>
   m_nextID (foldl notify r ns) = m_nextID r \<and>
   m_reusedIDCount (foldl notify r ns) = m_reusedIDCount r"
proof (induction ns arbitrary: r)
  case Nil
  then show ?case by simp
next
  case (Cons n ns)
  show ?case
  proof (cases n)
    case (Added e)
    have room: "ref_count r e + 1 < 2 ^ 64" using Cons.prems(2) [rule_format, of e] by simp
    note A = OnComponentAdded_count [OF Cons.prems(1) room]
    have ok: "counts_ok (OnComponentAdded r e)" using A by simp
    have rc: "ref_count (OnComponentAdded r e) = (ref_count r)(e := ref_count r e + 1)"
      using A by (intro ext) simp
    have b: "\<forall>x. ref_count (OnComponentAdded r e) x + length ns < 2 ^ 64"
    proof
      fix x
      show "ref_count (OnComponentAdded r e) x + length ns < 2 ^ 64"
        using Cons.prems(2) [rule_format, of x] Cons.prems(2) [rule_format, of e]
        by (simp add: rc)
    qed
    define RO where "RO = release_order ((ref_count r)(e := ref_count r e + 1)) ns"
    note IH = Cons.IH [OF ok b, unfolded rc, folded RO_def]
    have ro: "release_order (ref_count r) (n # ns) = RO"
      by (simp add: Added RO_def)
    have fo: "foldl notify r (n # ns) = foldl notify (OnComponentAdded r e) ns"
      by (simp add: Added)
    show ?thesis unfolding ro fo using IH by simp
  next
    case (Removed e)
    note R = OnComponentRemoved_count [OF Cons.prems(1), of e]
    have ok: "counts_ok (OnComponentRemoved r e)" using R by simp
    have rc: "ref_count (OnComponentRemoved r e) = (ref_count r)(e := ref_count r e - 1)"
      using R by (intro ext) simp
    have fr: "m_freeIDs (OnComponentRemoved r e) =
           (if ref_count r e = 1 then m_freeIDs r @ [e] else m_freeIDs r)"
      using R by simp
    have b: "\<forall>x. ref_count (OnComponentRemoved r e) x + length ns < 2 ^ 64"
    proof
      fix x
      show "ref_count (OnComponentRemoved r e) x + length ns < 2 ^ 64"
        using Cons.prems(2) [rule_format, of x] Cons.prems(2) [rule_format, of e]
        by (auto simp: rc)
    qed
    define RO where "RO = release_order ((ref_count r)(e := ref_count r e - 1)) ns"
    note IH = Cons.IH [OF ok b, unfolded rc fr, folded RO_def]
    have ro: "release_order (ref_count r) (n # ns) =
              (if ref_count r e = 1 then [e] else []) @ RO"
      by (simp add: Removed RO_def)
    have fo: "foldl notify r (n # ns) = foldl notify (OnComponentRemoved r e) ns"
      by (simp add: Removed)
    show ?thesis unfolding ro fo using IH by simp
  qed
qed

section \<open>Merge and Copy\<close>

lemma bind_err_Inr [simp]: "bind_err (Inr a) f = f a"
  by (simp add: bind_err_def)

lemma bind_err_Inl [simp]: "bind_err (Inl x) f = Inl x"
  by (simp add: bind_err_def)

lemma for_each_append:
  "for_each (xs @ ys) body a = bind_err (for_each xs body a) (for_each ys body)"
  by (induction xs arbitrary: a) (simp_all add: bind_err_def split: sum.splits)

lemma store_inv_grow:
  assumes "store_inv s"
  shows "store_inv (s\<lparr>sparse := sparse s @ replicate m NOT_FOUND\<rparr>)"
proof -
  have a: "\<And>k. k < length (entities s) \<Longrightarrow> unat (entities s ! k) < length (sparse s) \<and>
                 sparse s ! unat (entities s ! k) = of_nat k"
    using store_inv_index [OF assms] by simp
  have b: "\<And>x. x < length (sparse s) \<Longrightarrow> x \<notin> unat ` set (entities s) \<Longrightarrow>
                 sparse s ! x = NOT_FOUND"
    using store_inv_unmapped [OF assms] by simp
  have three: "\<forall>k \<in> {0 ..< length (entities s)}.
      unat (entities s ! k) < length (sparse s) + m \<and>
      (sparse s @ replicate m NOT_FOUND) ! unat (entities s ! k) = of_nat k"
    using a by (fastforce simp: nth_append)
  have four: "\<forall>x \<in> {0 ..< length (sparse s) + m}. x \<notin> unat ` set (entities s) \<longrightarrow>
      (sparse s @ replicate m NOT_FOUND) ! x = NOT_FOUND"
    using b by (auto simp: nth_append)
  show ?thesis using assms three four by (simp add: store_inv_def)
qed

lemma store_inv_Copy:
  "(case other of This_store \<Rightarrow> True | Other_store x \<Rightarrow> store_inv x) \<Longrightarrow>
   store_inv (snd (Copy r s other))"
  by (cases other) (simp_all add: Copy_def Clear_def store_inv_def)

lemma Merge_loop:
  assumes invB: "store_inv other" and inv0: "store_inv s0"
    and disj: "set (entities s0) \<inter> set (entities other) = {}"
    and big: "length (sparse other) \<le> length (sparse s0)"
    and k: "k \<le> length (entities other)"
  shows "\<exists>sk. for_each [0 ..< k] (Merge_body other) (r, s0) =
                 Inr (foldl OnComponentAdded r (take k (entities other)), sk) \<and>
              entities sk = entities s0 @ take k (entities other) \<and>
              components sk = components s0 @ take k (components other) \<and>
              length (sparse sk) = length (sparse s0) \<and>
              store_inv sk"
  using k
proof (induction k)
  case 0
  then show ?case using inv0 by simp
next
  case (Suc k)
  then have k: "k < length (entities other)" "k \<le> length (entities other)" by simp_all
  from Suc.IH [OF k(2)] obtain sk where
    L: "for_each [0 ..< k] (Merge_body other) (r, s0) =
          Inr (foldl OnComponentAdded r (take k (entities other)), sk)"
    and E: "entities sk = entities s0 @ take k (entities other)"
    and C: "components sk = components s0 @ take k (components other)"
    and S: "length (sparse sk) = length (sparse s0)"
    and I: "store_inv sk"
    by (elim exE conjE)
  define e where "e = entities other ! k"
  have lenB: "length (components other) = length (entities other)"
    and dB: "distinct (entities other)"
    using invB by (simp_all add: store_inv_def)
  have eB: "e \<in> set (entities other)" using k by (simp add: e_def)
  have "e \<notin> set (take k (entities other))"
    using dB k(1) unfolding e_def
    by (metis distinct_take id_take_nth_drop not_distinct_conv_prefix append.assoc append_Cons append_Nil)
  then have fresh: "e \<notin> set (entities sk)" using disj eB by (auto simp: E)
  then have nc: "\<not> Contains sk e" using I by (simp add: Contains_iff_mem)
  have b: "unat e < length (sparse sk)"
    using store_inv_index [OF invB k(1)] big S by (simp add: e_def)
  define sk' where "sk' = sk\<lparr>components := components sk @ [components other ! k],
                             entities := entities sk @ [e],
                             sparse := (sparse sk)[unat e := of_nat (length (components sk))]\<rparr>"
  have body: "Merge_body other k (foldl OnComponentAdded r (take k (entities other)), sk) =
              Inr (OnComponentAdded (foldl OnComponentAdded r (take k (entities other))) e, sk')"
    using k nc b by (simp add: Merge_body_def e_def [symmetric] sk'_def Let_def)
  have tk: "take (Suc k) (entities other) = take k (entities other) @ [e]"
    "take (Suc k) (components other) = take k (components other) @ [components other ! k]"
    using k lenB by (simp_all add: take_Suc_conv_app_nth e_def)
  have I': "store_inv sk'"
    unfolding sk'_def using store_inv_append [OF I fresh, of "sparse sk" 0] b by simp
  have "for_each [0 ..< Suc k] (Merge_body other) (r, s0) =
        Inr (foldl OnComponentAdded r (take (Suc k) (entities other)), sk')"
    by (simp add: for_each_append L body tk)
  then show ?case using E C S I' by (intro exI [of _ sk']) (simp add: sk'_def tk)
qed

lemma Merge_spec:
  assumes invA: "store_inv s" and invB: "store_inv other"
    and disj: "set (entities s) \<inter> set (entities other) = {}"
  shows "\<exists>s'. Merge r s other =
           Inr (foldl OnComponentRemoved (foldl OnComponentAdded r (entities other)) (entities other),
                s',
                other\<lparr>components := [], entities := [],
                      sparse := replicate (length (sparse other)) NOT_FOUND\<rparr>) \<and>
         entities s' = entities s @ entities other \<and>
         components s' = components s @ components other \<and>
         store_inv s'"
proof -
  define s0 where "s0 = (if length (sparse s) < length (sparse other)
                then s\<lparr>sparse := resize (length (sparse other) + 5000) NOT_FOUND (sparse s)\<rparr>
                else s)"
  have s0: "entities s0 = entities s" "components s0 = components s"
    "length (sparse other) \<le> length (sparse s0)"
    by (simp_all add: s0_def)
  have inv0: "store_inv s0"
  proof (cases "length (sparse s) < length (sparse other)")
    case True
    then have "s0 = s\<lparr>sparse := sparse s @
        replicate (length (sparse other) + 5000 - length (sparse s)) NOT_FOUND\<rparr>"
      by (simp add: s0_def resize_def)
    then show ?thesis using store_inv_grow [OF invA] by simp
  next
    case False
    then show ?thesis using invA by (simp add: s0_def)
  qed
  have lenB: "length (components other) = length (entities other)"
    using invB by (simp add: store_inv_def)
  from Merge_loop [OF invB inv0 _ s0(3), of "length (entities other)" r] disj s0(1)
  obtain s' where
    L: "for_each [0 ..< length (entities other)] (Merge_body other) (r, s0) =
          Inr (foldl OnComponentAdded r (entities other), s')"
    and E: "entities s' = entities s0 @ entities other"
    and C: "components s' = components s0 @ take (length (entities other)) (components other)"
    and I: "store_inv s'"
    by auto
  have "Merge r s other =
           Inr (foldl OnComponentRemoved (foldl OnComponentAdded r (entities other)) (entities other),
                s',
                other\<lparr>components := [], entities := [],
                      sparse := replicate (length (sparse other)) NOT_FOUND\<rparr>)"
    using L by (simp add: Merge_def s0_def [symmetric] GetCount_def lenB Clear_def Let_def)
  then show ?thesis using E C I s0 lenB by (intro exI [of _ s']) simp
qed

lemma count_list_distinct: "distinct xs \<Longrightarrow> count_list xs e = (if e \<in> set xs then 1 else 0)"
  by (induction xs) auto

lemma foldl_Removed_keep:
  assumes "counts_ok r" "\<forall>e \<in> set es. count_list es e < ref_count r e"
  shows "counts_ok (foldl OnComponentRemoved r es) \<and>
         m_freeIDs (foldl OnComponentRemoved r es) = m_freeIDs r \<and>
         (\<forall>x. ref_count (foldl OnComponentRemoved r es) x = ref_count r x - count_list es x)"
  using assms
proof (induction es arbitrary: r)
  case Nil
  then show ?case by simp
next
  case (Cons a es)
  note A = OnComponentRemoved_count [OF Cons.prems(1)]
  let ?r1 = "OnComponentRemoved r a"
  have ok1: "counts_ok ?r1" using A by simp
  have rc: "\<And>x. ref_count ?r1 x = (if x = a then ref_count r a - 1 else ref_count r x)"
    using A by simp
  have big: "1 < ref_count r a" using Cons.prems(2) by auto
  have fr: "m_freeIDs ?r1 = m_freeIDs r" using A [of a] big by simp
  have p: "\<forall>e \<in> set es. count_list es e < ref_count ?r1 e"
    using Cons.prems(2) by (auto simp: rc split: if_splits)
  from Cons.IH [OF ok1 p] show ?case by (simp add: fr rc)
qed

lemma registry_eqI:
  assumes "counts_ok r" "counts_ok r'" "\<forall>x. ref_count r' x = ref_count r x"
    "m_freeIDs r' = m_freeIDs r" "m_nextID r' = m_nextID r"
    "m_reusedIDCount r' = m_reusedIDCount r"
  shows "r' = r"
proof -
  have "m_componentCounts r' x = m_componentCounts r x" for x
  proof (cases "m_componentCounts r x")
    case None
    then have "ref_count r' x = 0" using assms(3) by (simp add: ref_count_def)
    then show ?thesis using None ref_count_zero_iff [OF assms(2)] by simp
  next
    case (Some c)
    then have nz: "ref_count r x \<noteq> 0" using ref_count_zero_iff [OF assms(1), of x] by simp
    then have "ref_count r' x \<noteq> 0" using assms(3) by simp
    then obtain c' where c': "m_componentCounts r' x = Some c'"
      using ref_count_zero_iff [OF assms(2), of x] by auto
    have "unat c' = unat c" using assms(3) [rule_format, of x] Some c' by (simp add: ref_count_def)
    then show ?thesis using Some c' by (simp add: word_unat_eq_iff)
  qed
  then have "m_componentCounts r' = m_componentCounts r" by (rule ext)
  then show ?thesis using assms(4,5,6) by (intro ECSManager.equality) simp_all
qed

lemma Merge_registry:
  assumes dB: "distinct es" and ok: "counts_ok r"
    and tracked: "\<forall>e \<in> set es. 0 < ref_count r e \<and> ref_count r e + 1 < 2 ^ 64"
    and k: "k \<le> length (map Added es @ map Removed es)"
  shows "counts_ok (foldl notify r (take k (map Added es @ map Removed es))) \<and>
         m_freeIDs (foldl notify r (take k (map Added es @ map Removed es))) = m_freeIDs r \<and>
         (\<forall>e \<in> set es. 0 < ref_count (foldl notify r (take k (map Added es @ map Removed es))) e) \<and>
         (k = length (map Added es @ map Removed es) \<longrightarrow>
            (\<forall>x. ref_count (foldl notify r (take k (map Added es @ map Removed es))) x = ref_count r x))"
proof -
  define n where "n = length es"
  define r1 where "r1 = foldl OnComponentAdded r (take k es)"
  define r2 where "r2 = foldl OnComponentRemoved r1 (take (k - n) es)"
  have tk: "foldl notify r (take k (map Added es @ map Removed es)) = r2"
    by (simp add: take_map foldl_notify_Added foldl_notify_Removed r2_def r1_def n_def)
  have c1: "\<And>j e. count_list (take j es) e = (if e \<in> set (take j es) then 1 else 0)"
    using dB by (intro count_list_distinct) simp
  have room: "\<forall>e. ref_count r e + count_list (take k es) e < 2 ^ 64"
  proof
    fix e show "ref_count r e + count_list (take k es) e < 2 ^ 64"
      using tracked ref_count_less [of r e] by (auto simp: c1 dest: in_set_takeD)
  qed
  have A: "counts_ok r1" "\<And>x. ref_count r1 x = ref_count r x + count_list (take k es) x"
    "m_freeIDs r1 = m_freeIDs r"
    using foldl_Added_count [OF ok room] by (simp_all add: r1_def)
  have p: "\<forall>e \<in> set (take (k - n) es). count_list (take (k - n) es) e < ref_count r1 e"
  proof
    fix e assume e: "e \<in> set (take (k - n) es)"
    then have "0 < k - n" by (cases "k - n") auto
    then have "take k es = es" by (simp add: n_def)
    moreover have "e \<in> set es" using e by (rule in_set_takeD)
    ultimately show "count_list (take (k - n) es) e < ref_count r1 e"
      using tracked e by (simp add: A(2) c1 count_list_distinct [OF dB])
  qed
  have B: "counts_ok r2" "m_freeIDs r2 = m_freeIDs r1"
    "\<And>x. ref_count r2 x = ref_count r1 x - count_list (take (k - n) es) x"
    using foldl_Removed_keep [OF A(1) p] by (simp_all add: r2_def)
  have pos: "\<forall>e \<in> set es. 0 < ref_count r2 e"
  proof
    fix e assume e: "e \<in> set es"
    show "0 < ref_count r2 e"
    proof (cases "e \<in> set (take (k - n) es)")
      case True
      then have "0 < k - n" by (cases "k - n") auto
      then have "take k es = es" by (simp add: n_def)
      then show ?thesis using tracked e True by (simp add: B(3) A(2) c1 count_list_distinct [OF dB])
    next
      case False
      then show ?thesis using tracked e by (simp add: B(3) A(2) c1)
    qed
  qed
  have fin: "k = length (map Added es @ map Removed es) \<longrightarrow> (\<forall>x. ref_count r2 x = ref_count r x)"
  proof
    assume "k = length (map Added es @ map Removed es)"
    then have "take k es = es" "take (k - n) es = es" by (simp_all add: n_def)
    then show "\<forall>x. ref_count r2 x = ref_count r x" by (simp add: B(3) A(2))
  qed
  show ?thesis unfolding tk using B(1,2) A(3) pos fin by simp
qed

section \<open>Serialize: writing and reading back\<close>

lemma ucast_entity_id: "ucast (ucast (e :: Entity) :: 64 word) = e"
  by (simp add: ucast_up_ucast_id is_up)

lemma unat_entity_less: "unat (e :: Entity) < 2 ^ 32"
  using unsigned_less [of e] by simp

lemma unat_ucast_entity: "unat (ucast (e :: Entity) :: 64 word) = unat e"
proof -
  have "unat e < 2 ^ 64" using unat_entity_less [of e] by simp
  then show ?thesis by (simp add: unsigned_ucast_eq take_bit_nat_eq_self)
qed

lemma ucast_entity_le_iff: "(ucast (e :: Entity) :: 64 word) \<le> m \<longleftrightarrow> unat e \<le> unat m"
  by (simp add: word_le_nat_alt unat_ucast_entity)

lemma write_components_loop:
  "\<not> readMode a \<Longrightarrow>
   for_each cs (\<lambda>c a. bind_err (Component_Serialize c a) (\<lambda>(c', a'). Inr a')) a =
     Inr (a\<lparr>stream := stream a @ map Payload cs\<rparr>)"
  by (induction cs arbitrary: a) (simp_all add: Component_Serialize_def IsReadMode_def)

lemma write_entities_loop:
  "\<not> readMode a \<Longrightarrow>
   for_each es (\<lambda>e a. bind_err (SerializeEntity r seri a e) (\<lambda>(r', seri', a', e'). Inr a')) a =
     Inr (a\<lparr>stream := stream a @ map (\<lambda>e. U64 (ucast e)) es\<rparr>)"
  by (induction es arbitrary: a) (simp_all add: SerializeEntity_def IsReadMode_def write_u64_def)

lemma Serialize_write:
  "\<not> readMode a \<Longrightarrow>
   Serialize dflt r seri s a =
     Inr (r, seri, s,
          a\<lparr>stream := stream a @ U64 (of_nat (length (components s))) #
                          map Payload (components s) @ map (\<lambda>e. U64 (ucast e)) (entities s)\<rparr>)"
  by (simp add: Serialize_def IsReadMode_def write_components_loop write_entities_loop write_u64_def)

lemma bind_err_eq_Inr:
  "bind_err m f = Inr y \<longleftrightarrow> (\<exists>x. m = Inr x \<and> f x = Inr y)"
  by (cases m) (simp_all add: bind_err_def)

lemma resize_replicate: "resize n v (replicate m v) = replicate n v"
  by (auto simp: resize_def replicate_add [symmetric] simp del: replicate_add)

lemma resize_Nil: "resize n v [] = replicate n v"
  by (simp add: resize_def)

lemma read_components_length:
  "for_each xs (\<lambda>i (comps, a). bind_err (Component_Serialize (comps ! i) a)
                        (\<lambda>(c, a'). Inr (comps[i := c], a'))) (cs0, a) = Inr (cs', a') \<Longrightarrow>
   length cs' = length cs0"
proof (induction xs arbitrary: cs0 a)
  case Nil
  then show ?case by simp
next
  case (Cons x xs)
  from Cons.prems obtain c a1 where
    "Component_Serialize (cs0 ! x) a = Inr (c, a1)"
    "for_each xs (\<lambda>i (comps, a). bind_err (Component_Serialize (comps ! i) a)
                        (\<lambda>(c, a'). Inr (comps[i := c], a'))) (cs0[x := c], a1) = Inr (cs', a')"
    by (auto simp: bind_err_eq_Inr)
  from Cons.IH [OF this(2)] show ?case by simp
qed

lemma read_components_exact:
  assumes "readMode a" "stream a = map Payload cs @ tail" "length cs0 = length cs"
    "k \<le> length cs"
  shows "for_each [0 ..< k] (\<lambda>i (comps, a). bind_err (Component_Serialize (comps ! i) a)
                        (\<lambda>(c, a'). Inr (comps[i := c], a'))) (cs0, a) =
         Inr (take k cs @ drop k cs0, a\<lparr>stream := map Payload (drop k cs) @ tail\<rparr>)"
  using assms(4)
proof (induction k)
  case 0
  then show ?case using assms(2) by simp
next
  case (Suc k)
  then have k: "k < length cs" "k \<le> length cs" by simp_all
  have d: "drop k cs = cs ! k # drop (Suc k) cs" using k(1) by (simp add: Cons_nth_drop_Suc)
  have u: "(take k cs @ drop k cs0)[k := cs ! k] = take (Suc k) cs @ drop (Suc k) cs0"
    using k(1) assms(3)
    by (simp add: list_update_append take_Suc_conv_app_nth upd_conv_take_nth_drop
        drop_Suc [symmetric] Cons_nth_drop_Suc [symmetric] flip: drop_drop)
  show ?case
    using Suc.IH [OF k(2)] assms(1)
    by (simp add: for_each_append Component_Serialize_def IsReadMode_def d u)
qed

lemma read_entities_general:
  assumes "for_each [0 ..< n] Serialize_read_entity (r, seri, a, ents0, m0) =
             Inr (r', seri', a', ents', m')"
    and "n \<le> length ents0"
  shows "length ents' = length ents0 \<and> (\<forall>j < n. unat (ents' ! j) \<le> unat m') \<and>
         unat m0 \<le> unat m' \<and> (unat m0 < 2 ^ 32 \<longrightarrow> unat m' < 2 ^ 32)"
  using assms
proof (induction n arbitrary: r' seri' a' ents' m')
  case 0
  then show ?case by simp
next
  case (Suc n)
  from Suc.prems(1) obtain r1 seri1 a1 ents1 m1 where
    L: "for_each [0 ..< n] Serialize_read_entity (r, seri, a, ents0, m0) =
          Inr (r1, seri1, a1, ents1, m1)"
    and B: "Serialize_read_entity n (r1, seri1, a1, ents1, m1) = Inr (r', seri', a', ents', m')"
    by (auto simp: for_each_append bind_err_eq_Inr)
  from Suc.prems(2) have n: "n \<le> length ents0" "n < length ents0" by simp_all
  note IH = Suc.IH [OF L n(1)]
  from B obtain e where
    e: "ents' = ents1[n := e]" "m' = (if ucast e > m1 then ucast e else m1)"
    by (auto simp: Serialize_read_entity_def bind_err_eq_Inr)
  have m1: "unat m1 \<le> unat m'" using e(2) by (auto simp: word_less_nat_alt)
  have em: "unat e \<le> unat m'"
    using e(2) by (auto simp: word_less_nat_alt unat_ucast_entity not_less)
  have b32: "unat m1 < 2 ^ 32 \<longrightarrow> unat m' < 2 ^ 32"
    using e(2) unat_entity_less [of e] by (auto simp: unat_ucast_entity)
  have "\<forall>j < Suc n. unat (ents' ! j) \<le> unat m'"
  proof (intro allI impI)
    fix j assume "j < Suc n"
    then consider "j < n" | "j = n" by force
    then show "unat (ents' ! j) \<le> unat m'"
    proof cases
      case 1
      then show ?thesis using IH m1 e(1) by (auto simp: nth_list_update)
    next
      case 2
      then show ?thesis using em IH n e(1) by simp
    qed
  qed
  then show ?case using IH m1 b32 e(1) by auto
qed

lemma read_entities_exact:
  assumes "readMode a" "\<not> allow_remap seri"
    "stream a = map (\<lambda>e. U64 (ucast e)) es @ rest" "length ents0 = length es"
    "k \<le> length es"
  shows "\<exists>mk. for_each [0 ..< k] Serialize_read_entity (r, seri, a, ents0, m0) =
           Inr (foldl OnComponentAdded r (take k es), seri,
                a\<lparr>stream := map (\<lambda>e. U64 (ucast e)) (drop k es) @ rest\<rparr>,
                take k es @ drop k ents0, mk)"
  using assms(5)
proof (induction k)
  case 0
  then show ?case using assms(3) by simp
next
  case (Suc k)
  then have k: "k < length es" "k \<le> length es" by simp_all
  from Suc.IH [OF k(2)] obtain mk where
    L: "for_each [0 ..< k] Serialize_read_entity (r, seri, a, ents0, m0) =
           Inr (foldl OnComponentAdded r (take k es), seri,
                a\<lparr>stream := map (\<lambda>e. U64 (ucast e)) (drop k es) @ rest\<rparr>,
                take k es @ drop k ents0, mk)" ..
  have d: "drop k es = es ! k # drop (Suc k) es" using k(1) by (simp add: Cons_nth_drop_Suc)
  have u: "(take k es @ drop k ents0)[k := es ! k] = take (Suc k) es @ drop (Suc k) ents0"
    using k(1) assms(4)
    by (simp add: list_update_append take_Suc_conv_app_nth upd_conv_take_nth_drop
        drop_Suc [symmetric] Cons_nth_drop_Suc [symmetric] flip: drop_drop)
  have t: "take (Suc k) es = take k es @ [es ! k]" using k(1) by (simp add: take_Suc_conv_app_nth)
  have body: "Serialize_read_entity k
           (foldl OnComponentAdded r (take k es), seri,
            a\<lparr>stream := map (\<lambda>e. U64 (ucast e)) (drop k es) @ rest\<rparr>,
            take k es @ drop k ents0, mk) =
         Inr (foldl OnComponentAdded r (take (Suc k) es), seri,
              a\<lparr>stream := map (\<lambda>e. U64 (ucast e)) (drop (Suc k) es) @ rest\<rparr>,
              take (Suc k) es @ drop (Suc k) ents0,
              (if ucast (es ! k) > mk then ucast (es ! k) else mk))"
    using assms(1,2)
    by (simp add: Serialize_read_entity_def SerializeEntity_def IsReadMode_def
        read_u64_def d u ucast_entity_id t)
  have up: "[0 ..< Suc k] = [0 ..< k] @ [k]" by simp
  have "for_each [0 ..< Suc k] Serialize_read_entity (r, seri, a, ents0, m0) =
         Inr (foldl OnComponentAdded r (take (Suc k) es), seri,
              a\<lparr>stream := map (\<lambda>e. U64 (ucast e)) (drop (Suc k) es) @ rest\<rparr>,
              take (Suc k) es @ drop (Suc k) ents0,
              (if ucast (es ! k) > mk then ucast (es ! k) else mk))"
    unfolding up for_each_append L by (simp add: body)
  then show ?case by (rule exI)
qed

lemma fill_sparse:
  assumes "\<forall>j < n. unat (ents ! j) < length sp" "distinct (take n ents)" "n \<le> length ents"
  shows "\<exists>sp'. for_each [0 ..< n]
                 (\<lambda>i sp'. if unat (ents ! i) < length sp'
                           then Inr (sp'[unat (ents ! i) := of_nat i])
                           else Inl OutOfBounds) sp = Inr sp' \<and>
               length sp' = length sp \<and>
               (\<forall>j < n. sp' ! unat (ents ! j) = (of_nat j :: size_t)) \<and>
               (\<forall>x. x \<notin> unat ` set (take n ents) \<longrightarrow> sp' ! x = sp ! x)"
  using assms
proof (induction n)
  case 0
  then show ?case by simp
next
  case (Suc n)
  then have n: "n < length ents" "n \<le> length ents" by simp_all
  have tk: "take (Suc n) ents = take n ents @ [ents ! n]"
    using n(1) by (simp add: take_Suc_conv_app_nth)
  have d: "distinct (take n ents)" "ents ! n \<notin> set (take n ents)"
    using Suc.prems(2) by (simp_all add: tk)
  from Suc.IH [OF _ d(1) n(2)] Suc.prems(1) obtain sp1 where
    L: "for_each [0 ..< n]
                 (\<lambda>i sp'. if unat (ents ! i) < length sp'
                           then Inr (sp'[unat (ents ! i) := of_nat i])
                           else Inl OutOfBounds) sp = Inr sp1"
    and l1: "length sp1 = length sp"
    and a1: "\<forall>j < n. sp1 ! unat (ents ! j) = (of_nat j :: size_t)"
    and b1: "\<forall>x. x \<notin> unat ` set (take n ents) \<longrightarrow> sp1 ! x = sp ! x"
    by auto
  have bn: "unat (ents ! n) < length sp1" using Suc.prems(1) l1 by simp
  have ne: "\<And>j. j < n \<Longrightarrow> unat (ents ! j) \<noteq> unat (ents ! n)"
  proof
    fix j assume j: "j < n" and eq: "unat (ents ! j) = unat (ents ! n)"
    then have "ents ! n = take n ents ! j" by (simp add: word_unat_eq_iff)
    moreover have "j < length (take n ents)" using j n by simp
    ultimately have "ents ! n \<in> set (take n ents)" by (metis nth_mem)
    with d(2) show False by simp
  qed
  let ?sp' = "sp1[unat (ents ! n) := of_nat n]"
  have "for_each [0 ..< Suc n]
                 (\<lambda>i sp'. if unat (ents ! i) < length sp'
                           then Inr (sp'[unat (ents ! i) := of_nat i])
                           else Inl OutOfBounds) sp = Inr ?sp'"
    using L bn by (simp add: for_each_append)
  moreover have "\<forall>j < Suc n. ?sp' ! unat (ents ! j) = (of_nat j :: size_t)"
  proof (intro allI impI)
    fix j assume "j < Suc n"
    then consider "j < n" | "j = n" by force
    then show "?sp' ! unat (ents ! j) = (of_nat j :: size_t)"
    proof cases
      case 1
      then show ?thesis using a1 ne [OF 1] by simp
    next
      case 2
      then show ?thesis using bn by simp
    qed
  qed
  moreover have "\<forall>x. x \<notin> unat ` set (take (Suc n) ents) \<longrightarrow> ?sp' ! x = sp ! x"
    using b1 by (auto simp: tk)
  ultimately show ?case using l1 by (intro exI [of _ ?sp']) simp
qed

lemma sparse_after_growth:
  assumes "unat (mx :: size_t) < 2 ^ 32"
  shows "\<exists>L. (if unat (mx + 1) > l0
              then resize (unat (mx + 5000)) NOT_FOUND (replicate l0 NOT_FOUND)
              else replicate l0 NOT_FOUND) = replicate L NOT_FOUND \<and> unat mx < L"
proof -
  have a: "unat (mx + 1) = unat mx + 1" "unat (mx + 5000) = unat mx + 5000"
    using assms by (simp_all add: unat_add_lem [THEN iffD1])
  show ?thesis
  proof (cases "unat (mx + 1) > l0")
    case True
    then show ?thesis by (intro exI [of _ "unat mx + 5000"]) (simp add: a resize_replicate)
  next
    case False
    then show ?thesis by (intro exI [of _ l0]) (simp add: a)
  qed
qed

lemma store_inv_filled:
  assumes "length comps = length ents" "distinct ents"
    "\<forall>j < length ents. unat (ents ! j) < L"
    "length sp' = L"
    "\<forall>j < length ents. sp' ! unat (ents ! j) = of_nat j"
    "\<forall>x. x \<notin> unat ` set ents \<longrightarrow> sp' ! x = replicate L NOT_FOUND ! x"
  shows "store_inv (s\<lparr>components := comps, entities := ents, sparse := sp'\<rparr>)"
  using assms by (simp add: store_inv_def)

lemma Serialize_read_inv:
  assumes rd: "readMode a"
    and S: "Serialize dflt r seri s a = Inr (r', seri', s', a')"
    and d: "distinct (entities s')"
  shows "store_inv s'"
proof -
  note defs = Serialize_def IsReadMode_def Clear_def Let_def
  obtain count a1 where rc: "read_u64 a = Inr (count, a1)"
    using S rd by (cases "read_u64 a") (auto simp: defs)
  obtain comps a2 where
    cl: "for_each [0 ..< unat count]
           (\<lambda>i (comps, a). bind_err (Component_Serialize (comps ! i) a)
                        (\<lambda>(c, a'). Inr (comps[i := c], a')))
           (resize (unat count) dflt [], a1) = Inr (comps, a2)"
    using S rd rc
    by (cases "for_each [0 ..< unat count]
           (\<lambda>i (comps, a). bind_err (Component_Serialize (comps ! i) a)
                        (\<lambda>(c, a'). Inr (comps[i := c], a')))
           (resize (unat count) dflt [], a1)") (auto simp: defs)
  obtain r2 seri2 a3 ents mx where
    el: "for_each [0 ..< unat count] Serialize_read_entity
           (foldl OnComponentRemoved r (entities s), seri, a2, resize (unat count) 0 [], 0) =
           Inr (r2, seri2, a3, ents, mx)"
    using S rd rc cl
    by (cases "for_each [0 ..< unat count] Serialize_read_entity
           (foldl OnComponentRemoved r (entities s), seri, a2, resize (unat count) 0 [], 0)")
       (auto simp: defs)
  obtain sp' where
    fl: "for_each [0 ..< unat count]
           (\<lambda>i sp'. if unat (ents ! i) < length sp'
                     then Inr (sp'[unat (ents ! i) := of_nat i]) else Inl OutOfBounds)
           (if unat (mx + 1) > length (sparse s)
            then resize (unat (mx + 5000)) NOT_FOUND (replicate (length (sparse s)) NOT_FOUND)
            else replicate (length (sparse s)) NOT_FOUND) = Inr sp'"
    using S rd rc cl el
    by (cases "for_each [0 ..< unat count]
           (\<lambda>i sp'. if unat (ents ! i) < length sp'
                     then Inr (sp'[unat (ents ! i) := of_nat i]) else Inl OutOfBounds)
           (if unat (mx + 1) > length (sparse s)
            then resize (unat (mx + 5000)) NOT_FOUND (replicate (length (sparse s)) NOT_FOUND)
            else replicate (length (sparse s)) NOT_FOUND)")
       (auto simp: defs cong del: if_weak_cong)
  have s': "s' = s\<lparr>components := comps, entities := ents, sparse := sp'\<rparr>"
    using S rd rc cl el fl by (auto simp: defs cong del: if_weak_cong)
  define n where "n = unat count"
  have lc: "length comps = n"
    using read_components_length [OF cl] by (simp add: resize_Nil n_def)
  have E: "length ents = n" "\<forall>j < n. unat (ents ! j) \<le> unat mx" "unat mx < 2 ^ 32"
    using read_entities_general [OF el] by (simp_all add: resize_Nil n_def)
  from sparse_after_growth [OF E(3), of "length (sparse s)"] obtain L where
    L: "(if unat (mx + 1) > length (sparse s)
            then resize (unat (mx + 5000)) NOT_FOUND (replicate (length (sparse s)) NOT_FOUND)
            else replicate (length (sparse s)) NOT_FOUND) = replicate L NOT_FOUND"
    "unat mx < L" by blast
  have b: "\<forall>j < n. unat (ents ! j) < length (replicate L NOT_FOUND :: size_t list)"
    using E(2) L(2) by auto
  have de: "distinct (take n ents)" using d by (simp add: s')
  from fill_sparse [OF b de] E(1) fl obtain
    F: "length sp' = L" "\<forall>j < n. sp' ! unat (ents ! j) = of_nat j"
       "\<forall>x. x \<notin> unat ` set ents \<longrightarrow> sp' ! x = replicate L NOT_FOUND ! x"
    unfolding L(1) n_def [symmetric] by auto
  show ?thesis
    unfolding s' using lc E(1) d b F
    by (intro store_inv_filled [where L = L]) (simp_all add: s')
qed

lemma Serialize_read_back:
  assumes inv: "store_inv s" and rm: "\<not> allow_remap seri'"
  shows "\<exists>t'. Serialize dflt r' seri' t
            \<lparr>readMode = True,
             stream = (U64 (of_nat (length (components s))) #
                       map Payload (components s) @ map (\<lambda>e. U64 (ucast e)) (entities s)) @ rest\<rparr> =
           Inr (foldl OnComponentAdded (foldl OnComponentRemoved r' (entities t)) (entities s),
                seri', t', \<lparr>readMode = True, stream = rest\<rparr>) \<and>
         components t' = components s \<and> entities t' = entities s \<and> store_inv t'"
proof -
  define n where "n = length (entities s)"
  define r1 where "r1 = foldl OnComponentRemoved r' (entities t)"
  define a0 :: "'a wiArchive" where "a0 = \<lparr>readMode = True,
             stream = (U64 (of_nat (length (components s))) #
                       map Payload (components s) @ map (\<lambda>e. U64 (ucast e)) (entities s)) @ rest\<rparr>"
  define a1 :: "'a wiArchive" where "a1 = \<lparr>readMode = True,
             stream = map Payload (components s) @ map (\<lambda>e. U64 (ucast e)) (entities s) @ rest\<rparr>"
  define a2 :: "'a wiArchive" where "a2 = \<lparr>readMode = True,
             stream = map (\<lambda>e. U64 (ucast e)) (entities s) @ rest\<rparr>"
  define a3 :: "'a wiArchive" where "a3 = \<lparr>readMode = True, stream = rest\<rparr>"
  have len: "length (components s) = n" and dist: "distinct (entities s)"
    using inv by (simp_all add: store_inv_def n_def)
  have n32: "n \<le> 2 ^ 32" using store_inv_length_le [OF inv] by (simp add: n_def)
  have un: "unat (of_nat n :: size_t) = n" by (rule unat_of_nat_index [OF n32])
  have rm0: "readMode a0" by (simp add: a0_def)
  have rc: "read_u64 a0 = Inr (of_nat n, a1)"
    by (simp add: read_u64_def a0_def a1_def len)
  have cl: "for_each [0 ..< n]
           (\<lambda>i (comps, a). bind_err (Component_Serialize (comps ! i) a)
                        (\<lambda>(c, a'). Inr (comps[i := c], a')))
           (replicate n dflt, a1) = Inr (components s, a2)"
    using read_components_exact [of a1 "components s" _ "replicate n dflt" n] len
    by (simp add: a1_def a2_def)
  from read_entities_exact [of a2 seri' "entities s" rest "replicate n 0" n r1 0] rm
  obtain mx where
    el: "for_each [0 ..< n] Serialize_read_entity (r1, seri', a2, replicate n 0, 0) =
           Inr (foldl OnComponentAdded r1 (entities s), seri', a3, entities s, mx)"
    by (auto simp: a2_def a3_def n_def)
  have E: "\<forall>j < n. unat (entities s ! j) \<le> unat mx" "unat mx < 2 ^ 32"
    using read_entities_general [OF el] by simp_all
  define SP where "SP = (if unat (mx + 1) > length (sparse t)
            then resize (unat (mx + 5000)) NOT_FOUND (replicate (length (sparse t)) NOT_FOUND)
            else replicate (length (sparse t)) NOT_FOUND)"
  from sparse_after_growth [OF E(2), of "length (sparse t)"] obtain L where
    L: "SP = replicate L NOT_FOUND" "unat mx < L" unfolding SP_def by blast
  have b: "\<forall>j < n. unat (entities s ! j) < length SP" using E(1) L by auto
  have de: "distinct (take n (entities s))" using dist by simp
  from fill_sparse [OF b de] obtain sp' where
    fl: "for_each [0 ..< n]
           (\<lambda>i sp'. if unat (entities s ! i) < length sp'
                     then Inr (sp'[unat (entities s ! i) := of_nat i]) else Inl OutOfBounds)
           SP = Inr sp'"
    by (auto simp: n_def)
  define t' where "t' = t\<lparr>components := components s, entities := entities s, sparse := sp'\<rparr>"
  have S: "Serialize dflt r' seri' t a0 =
             Inr (foldl OnComponentAdded r1 (entities s), seri', t', a3)"
    unfolding Serialize_def
    using rm0
    by (simp add: IsReadMode_def Clear_def rc un resize_Nil cl el
        r1_def [symmetric] SP_def [symmetric] fl t'_def Let_def
        cong del: if_weak_cong)
  have "distinct (entities t')" using dist by (simp add: t'_def)
  then have "store_inv t'"
    using Serialize_read_inv [OF _ S] by (simp add: a0_def)
  then show ?thesis
    using S by (intro exI [of _ t']) (simp add: a0_def a3_def r1_def t'_def)
qed

section \<open>MoveItem keeps the store coherent\<close>

text \<open>
  The shifting loop of \<open>MoveItem\<close> touches \<open>components\<close> only through \<open>set_component\<close>,
  so its effect on \<open>entities\<close> and \<open>sparse\<close> is that of the entity steps alone.
\<close>

lemma fold_entity_only:
  assumes "entities t = entities t'" "sparse t = sparse t'"
  shows "entities (fold (\<lambda>i u. set_entity i (entities u ! nx i)
                                  (set_component i (components u ! nx i) u)) xs t) =
         entities (fold (\<lambda>i u. set_entity i (entities u ! nx i) u) xs t') \<and>
         sparse (fold (\<lambda>i u. set_entity i (entities u ! nx i)
                                  (set_component i (components u ! nx i) u)) xs t) =
         sparse (fold (\<lambda>i u. set_entity i (entities u ! nx i) u) xs t') \<and>
         length (components (fold (\<lambda>i u. set_entity i (entities u ! nx i)
                                  (set_component i (components u ! nx i) u)) xs t)) =
         length (components t)"
  using assms
proof (induction xs arbitrary: t t')
  case Nil
  then show ?case by simp
next
  case (Cons x xs)
  let ?u = "set_entity x (entities t ! nx x) (set_component x (components t ! nx x) t)"
  let ?u' = "set_entity x (entities t' ! nx x) t'"
  have e: "entities ?u = entities ?u'" "sparse ?u = sparse ?u'"
    using Cons.prems by (simp_all add: set_entity_def set_component_def Let_def)
  have l: "length (components ?u) = length (components t)" by simp
  from Cons.IH [OF e] l show ?case by simp
qed

lemma entity_shift_up_loop:
  assumes "a \<le> b" "b < length (entities s)" "distinct (entities s)"
    "\<forall>x \<in> set (entities s). unat x < length (sparse s)"
  shows "length (entities (fold (\<lambda>i t. set_entity i (entities t ! (i + 1)) t) [a ..< b] s))
           = length (entities s) \<and>
         length (sparse (fold (\<lambda>i t. set_entity i (entities t ! (i + 1)) t) [a ..< b] s))
           = length (sparse s) \<and>
         (\<forall>k < length (entities s).
            entities (fold (\<lambda>i t. set_entity i (entities t ! (i + 1)) t) [a ..< b] s) ! k =
              (if a \<le> k \<and> k < b then entities s ! Suc k else entities s ! k)) \<and>
         (\<forall>k. a \<le> k \<and> k < b \<longrightarrow>
            sparse (fold (\<lambda>i t. set_entity i (entities t ! (i + 1)) t) [a ..< b] s)
              ! unat (entities s ! Suc k) = of_nat k) \<and>
         (\<forall>x. (\<forall>k. a \<le> k \<and> k < b \<longrightarrow> x \<noteq> unat (entities s ! Suc k)) \<longrightarrow>
            sparse (fold (\<lambda>i t. set_entity i (entities t ! (i + 1)) t) [a ..< b] s) ! x
              = sparse s ! x)"
proof -
  have "fold (\<lambda>i t. set_entity i (entities t ! (i + 1)) t) [a ..< b] s =
        fold (\<lambda>i t. set_entity (i - 1) (entities t ! i) t) (map Suc [a ..< b]) s"
    by (simp add: fold_map comp_def)
  also have "map Suc [a ..< b] = [Suc a ..< Suc b]" by (simp add: map_Suc_upt del: upt_Suc)
  finally have eq: "fold (\<lambda>i t. set_entity i (entities t ! (i + 1)) t) [a ..< b] s =
        fold (\<lambda>i t. set_entity (i - 1) (entities t ! i) t) [Suc a ..< Suc b] s" .
  have ab: "a < Suc b" "Suc b \<le> length (entities s)" using assms(1,2) by simp_all
  show ?thesis
    unfolding eq using entity_shift_loop [OF ab assms(3,4)] by simp
qed

lemma entity_shift_down_loop:
  assumes "d \<le> b" "b < length (entities s)" "distinct (entities s)"
    "\<forall>x \<in> set (entities s). unat x < length (sparse s)"
  shows "length (entities (foldr (\<lambda>i t. set_entity i (entities t ! (i - 1)) t) [Suc (b - d) ..< Suc b] s))
           = length (entities s) \<and>
         length (sparse (foldr (\<lambda>i t. set_entity i (entities t ! (i - 1)) t) [Suc (b - d) ..< Suc b] s))
           = length (sparse s) \<and>
         (\<forall>k < length (entities s).
            entities (foldr (\<lambda>i t. set_entity i (entities t ! (i - 1)) t) [Suc (b - d) ..< Suc b] s) ! k =
              (if b - d < k \<and> k \<le> b then entities s ! (k - 1) else entities s ! k)) \<and>
         (\<forall>k. b - d < k \<and> k \<le> b \<longrightarrow>
            sparse (foldr (\<lambda>i t. set_entity i (entities t ! (i - 1)) t) [Suc (b - d) ..< Suc b] s)
              ! unat (entities s ! (k - 1)) = of_nat k) \<and>
         (\<forall>x. (\<forall>k. b - d < k \<and> k \<le> b \<longrightarrow> x \<noteq> unat (entities s ! (k - 1))) \<longrightarrow>
            sparse (foldr (\<lambda>i t. set_entity i (entities t ! (i - 1)) t) [Suc (b - d) ..< Suc b] s) ! x
              = sparse s ! x)"
  using assms(1)
proof (induction d)
  case 0
  then show ?case by auto
next
  case (Suc d)
  then have d: "d \<le> b" "Suc d \<le> b" by simp_all
  define a where "a = b - d"
  have a: "b - Suc d = a - 1" "0 < a" "a \<le> b" "Suc (a - 1) = a" using d by (simp_all add: a_def)
  define t where "t = foldr (\<lambda>i t. set_entity i (entities t ! (i - 1)) t) [Suc a ..< Suc b] s"
  note IH = Suc.IH [OF d(1), folded a_def, folded t_def]
  have up: "foldr (\<lambda>i t. set_entity i (entities t ! (i - 1)) t) [Suc (a - 1) ..< Suc b] s =
            set_entity a (entities t ! (a - 1)) t"
    using a by (simp add: upt_conv_Cons t_def del: upt_Suc)
  have an: "a < length (entities s)" "a - 1 < length (entities s)" using a assms(2) by simp_all
  have em: "entities t ! (a - 1) = entities s ! (a - 1)" using IH an a by simp
  have b: "unat (entities s ! (a - 1)) < length (sparse t)"
    using assms(4) an IH by simp
  have m1: "a < length (entities t)" using IH an by simp
  have sp: "sparse (set_entity a (entities t ! (a - 1)) t) =
              (sparse t)[unat (entities s ! (a - 1)) := of_nat a]"
    using sparse_set_entity [OF m1, of "entities s ! (a - 1)"] b em by simp
  have inj: "\<And>k. a < k \<Longrightarrow> k \<le> b \<Longrightarrow> unat (entities s ! (k - 1)) \<noteq> unat (entities s ! (a - 1))"
    using assms(2,3) a by (simp add: word_unat_eq_iff [symmetric] nth_eq_iff_index_eq)
  have c1: "\<forall>k < length (entities s).
            entities (set_entity a (entities t ! (a - 1)) t) ! k =
              (if a - 1 < k \<and> k \<le> b then entities s ! (k - 1) else entities s ! k)"
    using IH a an em by (auto simp: nth_list_update)
  have c2: "\<forall>k. a - 1 < k \<and> k \<le> b \<longrightarrow>
            sparse (set_entity a (entities t ! (a - 1)) t) ! unat (entities s ! (k - 1)) = of_nat k"
  proof (intro allI impI)
    fix k assume k: "a - 1 < k \<and> k \<le> b"
    show "sparse (set_entity a (entities t ! (a - 1)) t) ! unat (entities s ! (k - 1)) = of_nat k"
    proof (cases "k = a")
      case True
      have g: "sparse (set_entity a (entities t ! (a - 1)) t) ! unat (entities s ! (a - 1)) = of_nat a"
        unfolding sp using b by simp
      show ?thesis using g True by simp
    next
      case False
      with k a(2) have ak: "a < k" "k \<le> b" by auto
      then show ?thesis unfolding sp using inj [OF ak] IH by simp
    qed
  qed
  have c3: "\<forall>x. (\<forall>k. a - 1 < k \<and> k \<le> b \<longrightarrow> x \<noteq> unat (entities s ! (k - 1))) \<longrightarrow>
            sparse (set_entity a (entities t ! (a - 1)) t) ! x = sparse s ! x"
  proof (intro allI impI)
    fix x assume x: "\<forall>k. a - 1 < k \<and> k \<le> b \<longrightarrow> x \<noteq> unat (entities s ! (k - 1))"
    from x [rule_format, of a] a have "x \<noteq> unat (entities s ! (a - 1))" by simp
    moreover have "\<forall>k. a < k \<and> k \<le> b \<longrightarrow> x \<noteq> unat (entities s ! (k - 1))"
    proof (intro allI impI)
      fix k assume "a < k \<and> k \<le> b"
      then have "a - 1 < k \<and> k \<le> b" by auto
      with x show "x \<noteq> unat (entities s ! (k - 1))" by blast
    qed
    then have "sparse t ! x = sparse s ! x" using IH by blast
    ultimately show "sparse (set_entity a (entities t ! (a - 1)) t) ! x = sparse s ! x"
      unfolding sp by simp
  qed
  show ?case unfolding a(1) up using IH c1 c2 c3 by simp
qed

lemma store_inv_permuted:
  assumes inv: "store_inv s"
    and lc: "length cs = length (entities s)"
    and lf: "length F = length (entities s)"
    and sF: "set F = set (entities s)"
    and ls: "length sp = length (sparse s)"
    and ix: "\<forall>k < length (entities s). sp ! unat (F ! k) = of_nat k"
    and un: "\<forall>x. x \<notin> unat ` set (entities s) \<longrightarrow> sp ! x = sparse s ! x"
  shows "store_inv (s\<lparr>components := cs, entities := F, sparse := sp\<rparr>)"
proof -
  have dE: "distinct (entities s)" using inv by (simp add: store_inv_def)
  have "card (set F) = length F" using sF lf dE by (simp add: distinct_card)
  then have dF: "distinct F" by (rule card_distinct)
  have b: "\<forall>k \<in> {0 ..< length F}. unat (F ! k) < length sp"
  proof
    fix k assume "k \<in> {0 ..< length F}"
    then have "F ! k \<in> set (entities s)" using sF by (metis atLeastLessThan_iff nth_mem)
    then obtain j where "j < length (entities s)" "entities s ! j = F ! k"
      by (auto simp: in_set_conv_nth)
    then show "unat (F ! k) < length sp" using store_inv_index [OF inv, of j] ls by simp
  qed
  have u: "\<forall>x \<in> {0 ..< length sp}. x \<notin> unat ` set F \<longrightarrow> sp ! x = NOT_FOUND"
  proof (intro ballI impI)
    fix x assume x: "x \<in> {0 ..< length sp}" "x \<notin> unat ` set F"
    then have "sp ! x = sparse s ! x" using un sF by simp
    then show "sp ! x = NOT_FOUND" using store_inv_unmapped [OF inv, of x] x ls sF by simp
  qed
  show ?thesis
    using lc lf dF b u ix by (simp add: store_inv_def)
qed

lemma store_inv_cong:
  "components a = components b \<Longrightarrow> entities a = entities b \<Longrightarrow> sparse a = sparse b \<Longrightarrow>
   store_inv a = store_inv b"
  by (simp add: store_inv_def)

lemma MoveItem_Inr:
  assumes "MoveItem s f t = Inr s'" "f \<noteq> t"
  shows "f < length (components s) \<and> t < length (components s) \<and>
         f < length (entities s) \<and> t < length (entities s) \<and>
         (\<exists>s1. s1 = fold (\<lambda>i u. set_entity i (entities u ! (if f < t then i + 1 else i - 1))
                              (set_component i (components u ! (if f < t then i + 1 else i - 1)) u))
                        (MoveItem_indices f t) s \<and>
               components s' = (components s1)[t := components s ! f] \<and>
               entities s' = (entities s1)[t := entities s ! f] \<and>
               sparse s' = (if unat (entities s ! f) < length (sparse s1)
                            then (sparse s1)[unat (entities s ! f) := of_nat t] else sparse s1))"
  using assms
  by (auto simp: MoveItem_def GetCount_def Let_def set_component_def split: if_splits)

lemma store_inv_MoveItem_up:
  assumes inv: "store_inv s" and M: "MoveItem s f t = Inr s'" and ft: "f < t"
  shows "store_inv s'"
proof -
  let ?E = "entities s"
  let ?n = "length ?E"
  have dE: "distinct ?E" and lc: "length (components s) = ?n"
    using inv by (simp_all add: store_inv_def)
  have bE: "\<forall>x \<in> set ?E. unat x < length (sparse s)"
    using inv by (auto simp: store_inv_def in_set_conv_nth)
  define s1 where "s1 = fold (\<lambda>i u. set_entity i (entities u ! (i + 1))
                              (set_component i (components u ! (i + 1)) u)) [f ..< t] s"
  from MoveItem_Inr [OF M] ft have
    fn: "f < ?n" and tn: "t < ?n" and
    c': "components s' = (components s1)[t := components s ! f]" and
    e': "entities s' = (entities s1)[t := ?E ! f]" and
    p': "sparse s' = (if unat (?E ! f) < length (sparse s1)
                      then (sparse s1)[unat (?E ! f) := of_nat t] else sparse s1)"
    by (simp_all add: s1_def MoveItem_indices_def)
  define s1e where "s1e = fold (\<lambda>i u. set_entity i (entities u ! (i + 1)) u) [f ..< t] s"
  have fo: "entities s1 = entities s1e" "sparse s1 = sparse s1e"
    "length (components s1) = length (components s)"
    using fold_entity_only [of s s "\<lambda>i. i + 1" "[f ..< t]"] by (simp_all add: s1_def s1e_def)
  have ft': "f \<le> t" using ft by simp
  note L = entity_shift_up_loop [OF ft' tn dE bE, folded s1e_def, folded fo]
  have l1: "length (entities s1) = ?n" and l2: "length (sparse s1) = length (sparse s)"
    using L by simp_all
  have n1: "\<And>k. k < ?n \<Longrightarrow> entities s1 ! k = (if f \<le> k \<and> k < t then ?E ! Suc k else ?E ! k)"
    using L by simp
  have q1: "\<And>k. f \<le> k \<Longrightarrow> k < t \<Longrightarrow> sparse s1 ! unat (?E ! Suc k) = of_nat k"
    using L by simp
  have r1: "\<And>x. (\<forall>k. f \<le> k \<and> k < t \<longrightarrow> x \<noteq> unat (?E ! Suc k)) \<Longrightarrow> sparse s1 ! x = sparse s ! x"
    using L by blast
  have bf: "unat (?E ! f) < length (sparse s1)" using bE fn l2 by simp
  define F where "F = (entities s1)[t := ?E ! f]"
  define sp where "sp = (sparse s1)[unat (?E ! f) := of_nat t]"
  have lF: "length F = ?n" by (simp add: F_def l1)
  have Fk: "\<And>k. k < ?n \<Longrightarrow> F ! k = (if k = t then ?E ! f else if f \<le> k \<and> k < t then ?E ! Suc k else ?E ! k)"
    by (simp add: F_def nth_list_update l1 n1)
  have neq: "\<And>i j. i < ?n \<Longrightarrow> j < ?n \<Longrightarrow> i \<noteq> j \<Longrightarrow> unat (?E ! i) \<noteq> unat (?E ! j)"
    using dE by (simp add: word_unat_eq_iff [symmetric] nth_eq_iff_index_eq)
  have sF: "set F = set ?E"
  proof
    show "set F \<subseteq> set ?E"
    proof
      fix x assume "x \<in> set F"
      then obtain k where k: "k < ?n" "F ! k = x" using lF by (auto simp: in_set_conv_nth)
      define j where "j = (if k = t then f else if f \<le> k \<and> k < t then Suc k else k)"
      have "F ! k = ?E ! j" using Fk [OF k(1)] by (simp add: j_def)
      moreover have "j < ?n" using fn tn k(1) by (simp add: j_def)
      ultimately show "x \<in> set ?E" using k(2) nth_mem [of j ?E] by simp
    qed
    show "set ?E \<subseteq> set F"
    proof
      fix x assume "x \<in> set ?E"
      then obtain j where j: "j < ?n" "?E ! j = x" by (auto simp: in_set_conv_nth)
      consider "j = f" | "f < j" "j \<le> t" | "j < f" | "t < j" by linarith
      then have "\<exists>k < ?n. F ! k = x"
      proof cases
        case 1
        then show ?thesis using Fk [OF tn] j tn by auto
      next
        case 2
        then have "j - 1 < ?n" "F ! (j - 1) = ?E ! j" using Fk [of "j - 1"] j by auto
        then show ?thesis using j by auto
      next
        case 3
        then have "F ! j = ?E ! j" using Fk [OF j(1)] ft by auto
        then show ?thesis using j by auto
      next
        case 4
        then have "F ! j = ?E ! j" using Fk [OF j(1)] ft by auto
        then show ?thesis using j by auto
      qed
      then show "x \<in> set F" using lF by (auto simp: in_set_conv_nth)
    qed
  qed
  have ix: "\<forall>k < ?n. sp ! unat (F ! k) = of_nat k"
  proof (intro allI impI)
    fix k assume k: "k < ?n"
    consider "k = t" | "f \<le> k" "k < t" | "k < f" | "t < k" by linarith
    then show "sp ! unat (F ! k) = of_nat k"
    proof cases
      case 1
      then show ?thesis using Fk [OF k] bf by (simp add: sp_def)
    next
      case 2
      then have a: "F ! k = ?E ! Suc k" using Fk [OF k] by simp
      have "Suc k < ?n" using 2 tn by simp
      then have "unat (?E ! Suc k) \<noteq> unat (?E ! f)" using neq [of "Suc k" f] fn 2 by simp
      then show ?thesis using q1 [OF 2] by (simp add: sp_def a)
    next
      case 3
      then have a: "F ! k = ?E ! k" using Fk [OF k] ft by simp
      have b: "unat (?E ! k) \<noteq> unat (?E ! f)" using neq [of k f] fn k 3 by simp
      have "\<forall>j. f \<le> j \<and> j < t \<longrightarrow> unat (?E ! k) \<noteq> unat (?E ! Suc j)"
        using neq [OF k] tn 3 by auto
      then have "sparse s1 ! unat (?E ! k) = sparse s ! unat (?E ! k)" by (rule r1)
      then show ?thesis using b store_inv_index [OF inv k] by (simp add: sp_def a)
    next
      case 4
      then have a: "F ! k = ?E ! k" using Fk [OF k] ft by simp
      have b: "unat (?E ! k) \<noteq> unat (?E ! f)" using neq [of k f] fn k 4 ft by simp
      have "\<forall>j. f \<le> j \<and> j < t \<longrightarrow> unat (?E ! k) \<noteq> unat (?E ! Suc j)"
        using neq [OF k] tn 4 by auto
      then have "sparse s1 ! unat (?E ! k) = sparse s ! unat (?E ! k)" by (rule r1)
      then show ?thesis using b store_inv_index [OF inv k] by (simp add: sp_def a)
    qed
  qed
  have un: "\<forall>x. x \<notin> unat ` set ?E \<longrightarrow> sp ! x = sparse s ! x"
  proof (intro allI impI)
    fix x assume x: "x \<notin> unat ` set ?E"
    have m: "\<And>j. j < ?n \<Longrightarrow> x \<noteq> unat (?E ! j)" using x by (metis image_eqI nth_mem)
    have "\<forall>j. f \<le> j \<and> j < t \<longrightarrow> x \<noteq> unat (?E ! Suc j)" using m tn by auto
    then have "sparse s1 ! x = sparse s ! x" by (rule r1)
    then show "sp ! x = sparse s ! x" using m [OF fn] by (simp add: sp_def)
  qed
  have "store_inv (s\<lparr>components := (components s1)[t := components s ! f], entities := F, sparse := sp\<rparr>)"
    by (rule store_inv_permuted [OF inv _ lF sF _ ix un]) (simp_all add: fo(3) lc sp_def l2)
  moreover have "store_inv s' = store_inv (s\<lparr>components := (components s1)[t := components s ! f], entities := F, sparse := sp\<rparr>)"
    by (rule store_inv_cong) (simp_all add: c' e' p' bf F_def sp_def)
  ultimately show ?thesis by simp
qed

lemma store_inv_MoveItem_down:
  assumes inv: "store_inv s" and M: "MoveItem s f t = Inr s'" and ft: "t < f"
  shows "store_inv s'"
proof -
  let ?E = "entities s"
  let ?n = "length ?E"
  have dE: "distinct ?E" and lc: "length (components s) = ?n"
    using inv by (simp_all add: store_inv_def)
  have bE: "\<forall>x \<in> set ?E. unat x < length (sparse s)"
    using inv by (auto simp: store_inv_def in_set_conv_nth)
  define s1 where "s1 = fold (\<lambda>i u. set_entity i (entities u ! (i - 1))
                              (set_component i (components u ! (i - 1)) u)) (rev [t + 1 ..< f + 1]) s"
  from MoveItem_Inr [OF M] ft have
    fn: "f < ?n" and tn: "t < ?n" and
    c': "components s' = (components s1)[t := components s ! f]" and
    e': "entities s' = (entities s1)[t := ?E ! f]" and
    p': "sparse s' = (if unat (?E ! f) < length (sparse s1)
                      then (sparse s1)[unat (?E ! f) := of_nat t] else sparse s1)"
    by (simp_all add: s1_def MoveItem_indices_def)
  define s1e where "s1e = foldr (\<lambda>i u. set_entity i (entities u ! (i - 1)) u) [Suc (f - (f - t)) ..< Suc f] s"
  have tf: "Suc (f - (f - t)) = Suc t" using ft by simp
  have fo: "entities s1 = entities s1e" "sparse s1 = sparse s1e"
    "length (components s1) = length (components s)"
    using fold_entity_only [of s s "\<lambda>i. i - 1" "rev [t + 1 ..< f + 1]"]
    unfolding s1_def s1e_def tf foldr_conv_fold by simp_all
  have ft': "f - t \<le> f" by simp
  note L = entity_shift_down_loop [OF ft' fn dE bE, folded s1e_def, folded fo]
  have ftt: "f - (f - t) = t" using ft by simp
  have l1: "length (entities s1) = ?n" and l2: "length (sparse s1) = length (sparse s)"
    using L by simp_all
  have n1: "\<And>k. k < ?n \<Longrightarrow> entities s1 ! k = (if t < k \<and> k \<le> f then ?E ! (k - 1) else ?E ! k)"
    using L unfolding ftt by simp
  have q1: "\<And>k. t < k \<Longrightarrow> k \<le> f \<Longrightarrow> sparse s1 ! unat (?E ! (k - 1)) = of_nat k"
    using L unfolding ftt by simp
  have r1: "\<And>x. (\<forall>k. t < k \<and> k \<le> f \<longrightarrow> x \<noteq> unat (?E ! (k - 1))) \<Longrightarrow> sparse s1 ! x = sparse s ! x"
    using L unfolding ftt by blast
  have bf: "unat (?E ! f) < length (sparse s1)" using bE fn l2 by simp
  define F where "F = (entities s1)[t := ?E ! f]"
  define sp where "sp = (sparse s1)[unat (?E ! f) := of_nat t]"
  have lF: "length F = ?n" by (simp add: F_def l1)
  have Fk: "\<And>k. k < ?n \<Longrightarrow> F ! k = (if k = t then ?E ! f else if t < k \<and> k \<le> f then ?E ! (k - 1) else ?E ! k)"
    by (simp add: F_def nth_list_update l1 n1)
  have neq: "\<And>i j. i < ?n \<Longrightarrow> j < ?n \<Longrightarrow> i \<noteq> j \<Longrightarrow> unat (?E ! i) \<noteq> unat (?E ! j)"
    using dE by (simp add: word_unat_eq_iff [symmetric] nth_eq_iff_index_eq)
  have sep: "unat (?E ! k) \<noteq> unat (?E ! (j - 1))"
    if "k < ?n" "t < j" "j \<le> f" "k \<noteq> j - 1" for k j
  proof -
    have "j - 1 < ?n" using that fn by simp
    then show ?thesis using neq [of k "j - 1"] that by simp
  qed
  have sF: "set F = set ?E"
  proof
    show "set F \<subseteq> set ?E"
    proof
      fix x assume "x \<in> set F"
      then obtain k where k: "k < ?n" "F ! k = x" using lF by (auto simp: in_set_conv_nth)
      define j where "j = (if k = t then f else if t < k \<and> k \<le> f then k - 1 else k)"
      have "F ! k = ?E ! j" using Fk [OF k(1)] by (simp add: j_def)
      moreover have "j < ?n" using fn tn k(1) by (auto simp: j_def)
      ultimately show "x \<in> set ?E" using k(2) nth_mem [of j ?E] by simp
    qed
    show "set ?E \<subseteq> set F"
    proof
      fix x assume "x \<in> set ?E"
      then obtain j where j: "j < ?n" "?E ! j = x" by (auto simp: in_set_conv_nth)
      consider "j = f" | "t \<le> j" "j < f" | "j < t" | "f < j" by linarith
      then have "\<exists>k < ?n. F ! k = x"
      proof cases
        case 1
        then show ?thesis using Fk [OF tn] j tn by auto
      next
        case 2
        then have "Suc j < ?n" "F ! (Suc j) = ?E ! j" using Fk [of "Suc j"] fn by auto
        then show ?thesis using j by auto
      next
        case 3
        then have "F ! j = ?E ! j" using Fk [OF j(1)] ft by auto
        then show ?thesis using j by auto
      next
        case 4
        then have "F ! j = ?E ! j" using Fk [OF j(1)] ft by auto
        then show ?thesis using j by auto
      qed
      then show "x \<in> set F" using lF by (auto simp: in_set_conv_nth)
    qed
  qed
  have ix: "\<forall>k < ?n. sp ! unat (F ! k) = of_nat k"
  proof (intro allI impI)
    fix k assume k: "k < ?n"
    consider "k = t" | "t < k" "k \<le> f" | "k < t" | "f < k" by linarith
    then show "sp ! unat (F ! k) = of_nat k"
    proof cases
      case 1
      then show ?thesis using Fk [OF k] bf by (simp add: sp_def)
    next
      case 2
      then have a: "F ! k = ?E ! (k - 1)" using Fk [OF k] by simp
      have "k - 1 < ?n" using k by simp
      then have "unat (?E ! (k - 1)) \<noteq> unat (?E ! f)" using neq [of "k - 1" f] fn 2 by simp
      then show ?thesis using q1 [OF 2] by (simp add: sp_def a)
    next
      case 3
      then have a: "F ! k = ?E ! k" using Fk [OF k] ft by simp
      have b: "unat (?E ! k) \<noteq> unat (?E ! f)" using neq [of k f] fn k 3 ft by simp
      have "\<forall>j. t < j \<and> j \<le> f \<longrightarrow> unat (?E ! k) \<noteq> unat (?E ! (j - 1))"
      proof (intro allI impI)
        fix j assume j: "t < j \<and> j \<le> f"
        then have "k \<noteq> j - 1" using 3 by auto
        then show "unat (?E ! k) \<noteq> unat (?E ! (j - 1))" using sep [OF k] j by simp
      qed
      then have "sparse s1 ! unat (?E ! k) = sparse s ! unat (?E ! k)" by (rule r1)
      then show ?thesis using b store_inv_index [OF inv k] by (simp add: sp_def a)
    next
      case 4
      then have a: "F ! k = ?E ! k" using Fk [OF k] ft by simp
      have b: "unat (?E ! k) \<noteq> unat (?E ! f)" using neq [of k f] fn k 4 by simp
      have "\<forall>j. t < j \<and> j \<le> f \<longrightarrow> unat (?E ! k) \<noteq> unat (?E ! (j - 1))"
      proof (intro allI impI)
        fix j assume j: "t < j \<and> j \<le> f"
        then have "k \<noteq> j - 1" using 4 by auto
        then show "unat (?E ! k) \<noteq> unat (?E ! (j - 1))" using sep [OF k] j by simp
      qed
      then have "sparse s1 ! unat (?E ! k) = sparse s ! unat (?E ! k)" by (rule r1)
      then show ?thesis using b store_inv_index [OF inv k] by (simp add: sp_def a)
    qed
  qed
  have un: "\<forall>x. x \<notin> unat ` set ?E \<longrightarrow> sp ! x = sparse s ! x"
  proof (intro allI impI)
    fix x assume x: "x \<notin> unat ` set ?E"
    have m: "\<And>j. j < ?n \<Longrightarrow> x \<noteq> unat (?E ! j)" using x by (metis image_eqI nth_mem)
    have "\<forall>j. t < j \<and> j \<le> f \<longrightarrow> x \<noteq> unat (?E ! (j - 1))"
    proof (intro allI impI)
      fix j assume j: "t < j \<and> j \<le> f"
      then have "j - 1 < ?n" using fn by auto
      then show "x \<noteq> unat (?E ! (j - 1))" by (rule m)
    qed
    then have "sparse s1 ! x = sparse s ! x" by (rule r1)
    then show "sp ! x = sparse s ! x" using m [OF fn] by (simp add: sp_def)
  qed
  have "store_inv (s\<lparr>components := (components s1)[t := components s ! f], entities := F, sparse := sp\<rparr>)"
    by (rule store_inv_permuted [OF inv _ lF sF _ ix un]) (simp_all add: fo(3) lc sp_def l2)
  moreover have "store_inv s' = store_inv (s\<lparr>components := (components s1)[t := components s ! f], entities := F, sparse := sp\<rparr>)"
    by (rule store_inv_cong) (simp_all add: c' e' p' bf F_def sp_def)
  ultimately show ?thesis by simp
qed

lemma store_inv_MoveItem:
  assumes "store_inv s" "MoveItem s f t = Inr s'"
  shows "store_inv s'"
proof -
  consider "f = t" | "f < t" | "t < f" by linarith
  then show ?thesis
  proof cases
    case 1
    then show ?thesis using assms by (simp add: MoveItem_def split: if_splits)
  next
    case 2
    then show ?thesis using assms by (rule store_inv_MoveItem_up [rotated 2])
  next
    case 3
    then show ?thesis using assms by (rule store_inv_MoveItem_down [rotated 2])
  qed
qed

section \<open>Every operation keeps the store coherent\<close>

lemma for_each_inv:
  assumes step: "\<And>x a a'. P a \<Longrightarrow> body x a = Inr a' \<Longrightarrow> P a'"
  shows "P a \<Longrightarrow> for_each xs body a = Inr a' \<Longrightarrow> P a'"
proof (induction xs arbitrary: a)
  case Nil
  then show ?case by simp
next
  case (Cons x xs)
  from Cons.prems(2) obtain b where b: "body x a = Inr b" "for_each xs body b = Inr a'"
    by (auto simp: bind_err_eq_Inr)
  from step [OF Cons.prems(1) b(1)] have "P b" .
  then show ?case using b(2) by (rule Cons.IH)
qed

lemma Merge_body_Inr:
  assumes "Merge_body other i (r, s) = Inr (r', s')"
  shows "\<not> Contains s (entities other ! i) \<and> i < length (entities other) \<and>
         (\<exists>m. s' = s\<lparr>components := components s @ [components other ! i],
                      entities := entities s @ [entities other ! i],
                      sparse := (sparse s @ replicate m NOT_FOUND)
                                  [unat (entities other ! i) := of_nat (length (components s))]\<rparr> \<and>
              unat (entities other ! i) < length (sparse s) + m)"
proof (cases "unat (entities other ! i) < length (sparse s)")
  case True
  with assms show ?thesis
    by (intro conjI exI [of _ 0]) (auto simp: Merge_body_def Let_def split: if_splits)
next
  case False
  let ?e = "entities other ! i"
  let ?sp = "resize (unat (?e + 5000)) NOT_FOUND (sparse s)"
  from assms False have b: "unat ?e < length ?sp" and nc: "\<not> Contains s ?e"
    and i: "i < length (entities other)"
    and s': "s' = s\<lparr>components := components s @ [components other ! i],
                     entities := entities s @ [?e],
                     sparse := ?sp[unat ?e := of_nat (length (components s))]\<rparr>"
    by (auto simp: Merge_body_def Let_def split: if_splits)
  from False have "length (sparse s) \<le> unat ?e" by simp
  from resize_grows [OF this b] have
    g: "?sp = sparse s @ replicate (unat (?e + 5000) - length (sparse s)) NOT_FOUND"
       "length (sparse s) < unat (?e + 5000)" by simp_all
  have "unat ?e < length (sparse s) + (unat (?e + 5000) - length (sparse s))"
    using b g(2) by simp
  then show ?thesis using nc i s' g(1)
    by (intro conjI exI [of _ "unat (?e + 5000) - length (sparse s)"]) simp_all
qed

lemma store_inv_Merge_body:
  assumes "store_inv s" "Merge_body other i (r, s) = Inr (r', s')"
  shows "store_inv s'"
proof -
  from Merge_body_Inr [OF assms(2)] obtain m where
    nc: "\<not> Contains s (entities other ! i)" and
    s': "s' = s\<lparr>components := components s @ [components other ! i],
                 entities := entities s @ [entities other ! i],
                 sparse := (sparse s @ replicate m NOT_FOUND)
                             [unat (entities other ! i) := of_nat (length (components s))]\<rparr>" and
    b: "unat (entities other ! i) < length (sparse s) + m"
    by (elim exE conjE)
  have fresh: "entities other ! i \<notin> set (entities s)"
    using nc assms(1) by (simp add: Contains_iff_mem)
  show ?thesis unfolding s'
    by (rule store_inv_append [OF assms(1) fresh refl]) (simp add: b)
qed

lemma store_inv_Merge:
  assumes inv: "store_inv s" and M: "Merge r s other = Inr (r', s', other')"
  shows "store_inv s'"
proof -
  define s0 where "s0 = (if length (sparse s) < length (sparse other)
                then s\<lparr>sparse := resize (length (sparse other) + 5000) NOT_FOUND (sparse s)\<rparr>
                else s)"
  have inv0: "store_inv s0"
  proof (cases "length (sparse s) < length (sparse other)")
    case True
    then have "resize (length (sparse other) + 5000) NOT_FOUND (sparse s) =
               sparse s @ replicate (length (sparse other) + 5000 - length (sparse s)) NOT_FOUND"
      by (simp add: resize_def)
    then show ?thesis using True store_inv_grow [OF inv] by (simp add: s0_def)
  next
    case False
    then show ?thesis using inv by (simp add: s0_def)
  qed
  from M obtain r1 where
    L: "for_each [0 ..< GetCount other] (Merge_body other) (r, s0) = Inr (r1, s')"
    unfolding Merge_def Let_def s0_def [symmetric]
    by (auto simp: bind_err_eq_Inr Clear_def)
  have "store_inv (snd (r1, s'))"
  proof (rule for_each_inv [where P = "\<lambda>a. store_inv (snd a)", OF _ _ L])
    fix x and a a' :: "ECSManager \<times> 'a ComponentManager"
    assume "store_inv (snd a)" "Merge_body other x a = Inr a'"
    then show "store_inv (snd a')"
      using store_inv_Merge_body [of "snd a" other x "fst a" "fst a'" "snd a'"] by simp
  next
    show "store_inv (snd (r, s0))" using inv0 by simp
  qed
  then show ?thesis by simp
qed

lemma store_inv_Remove_KeepSorted:
  assumes "store_inv s" "Remove_KeepSorted r s e = Inr (r', s')"
  shows "store_inv s'"
proof (cases "Contains s e")
  case True
  from Remove_KeepSorted_spec [OF assms(1) True, of r] assms(2) show ?thesis by auto
next
  case False
  then have nc: "(unat e < length (sparse s) \<and> sparse s ! unat e \<noteq> NOT_FOUND) = False"
    by (simp add: Contains_iff)
  have "Remove_KeepSorted r s e = Inr (r, s)"
    unfolding Remove_KeepSorted_def by (simp only: nc if_False)
  then show ?thesis using assms by simp
qed

lemma store_inv_Serialize:
  assumes inv: "store_inv s"
    and S: "Serialize dflt r seri s a = Inr (r', seri', s', a')"
    and d: "\<not> IsReadMode a \<or> distinct (loaded_entities dflt r seri s a)"
  shows "store_inv s'"
proof (cases "readMode a")
  case True
  then have "distinct (entities s')" using d S by (simp add: loaded_entities_def IsReadMode_def)
  with True S show ?thesis by (rule Serialize_read_inv)
next
  case False
  then show ?thesis using S inv by (simp add: Serialize_write)
qed

lemma step_inv:
  assumes inv: "store_inv s" and pre: "op_pre dflt op (r, s)"
    and st: "step dflt op (r, s) = Inr (r', s')"
  shows "store_inv s'"
proof (cases op)
  case (Op_Create e)
  then show ?thesis using st inv store_inv_Create [of s dflt r e]
    by (auto simp: step_def bind_err_eq_Inr)
next
  case (Op_Remove e)
  then show ?thesis using st inv store_inv_Remove [of s r e r' s'] by (simp add: step_def)
next
  case (Op_Remove_KeepSorted e)
  then show ?thesis using st inv store_inv_Remove_KeepSorted [of s r e r' s'] by (simp add: step_def)
next
  case (Op_MoveItem f t)
  then show ?thesis using st inv store_inv_MoveItem [of s f t s']
    by (auto simp: step_def bind_err_eq_Inr)
next
  case Op_Clear
  then show ?thesis using st store_inv_Clear [of r s] by (auto simp: step_def)
next
  case (Op_Copy other)
  then show ?thesis using st pre store_inv_Copy [of other r s] by (auto simp: step_def op_pre_def)
next
  case (Op_Merge other)
  then show ?thesis using st inv store_inv_Merge [of s r other]
    by (auto simp: step_def bind_err_eq_Inr)
next
  case (Op_Serialize seri a)
  then show ?thesis using st inv pre store_inv_Serialize [of s dflt r seri a]
    by (auto simp: step_def op_pre_def bind_err_eq_Inr)
next
  case (Op_Write i c)
  then show ?thesis using st inv store_inv_write_component [of s i c s']
    by (auto simp: step_def bind_err_eq_Inr)
qed

lemma store_inv_coherent:
  assumes inv: "store_inv s"
  shows "coherent s"
proof -
  have l: "length (components s) = length (entities s)" using inv by (simp add: store_inv_def)
  have a: "\<forall>e. (GetIndex s e = NOT_FOUND) = (e \<notin> set (entities s))"
    using inv by (simp add: GetIndex_NF_iff Contains_iff_mem)
  have b: "\<forall>e. GetIndex s e = NOT_FOUND \<or>
          (unat (GetIndex s e) < length (entities s) \<and> entities s ! unat (GetIndex s e) = e)"
  proof
    fix e
    show "GetIndex s e = NOT_FOUND \<or>
          (unat (GetIndex s e) < length (entities s) \<and> entities s ! unat (GetIndex s e) = e)"
    proof (cases "Contains s e")
      case True
      then show ?thesis
        using store_inv_entity_at [OF inv True] by (simp add: GetIndex_Contains)
    next
      case False
      then show ?thesis by (simp add: GetIndex_NF_iff)
    qed
  qed
  show ?thesis using l a b by (simp add: coherent_def)
qed

lemma run_Nil [simp]: "run dflt [] st = Inr st"
  by (simp add: run_def)

lemma run_Cons [simp]: "run dflt (op # ops) st = bind_err (step dflt op st) (run dflt ops)"
proof -
  have "run dflt ops = for_each ops (step dflt)" by (rule ext) (simp add: run_def)
  then show ?thesis by (simp add: run_def)
qed

lemma run_inv:
  assumes pres: "\<And>op r s r' s'. I s \<Longrightarrow> P op (r, s) \<Longrightarrow> step dflt op (r, s) = Inr (r', s') \<Longrightarrow> I s'"
  shows "I (snd st) \<Longrightarrow> run_pre P dflt ops st \<Longrightarrow>
         \<exists>st'. run dflt (take n ops) st = Inr st' \<and> I (snd st')"
proof (induction ops arbitrary: st n)
  case Nil
  then show ?case by simp
next
  case (Cons op ops)
  show ?case
  proof (cases n)
    case 0
    then show ?thesis using Cons.prems(1) by simp
  next
    case (Suc m)
    from Cons.prems(2) obtain st1 where
      p: "P op st" and s1: "step dflt op st = Inr st1" and rp: "run_pre P dflt ops st1"
      by (auto split: sum.splits)
    have "I (snd st1)"
      using pres [of "snd st" op "fst st" "fst st1" "snd st1"] Cons.prems(1) p s1 by simp
    from Cons.IH [OF this rp, of m] show ?thesis using Suc s1 by simp
  qed
qed

section \<open>Held entities are valid and addressable\<close>






















section \<open>Benign misses\<close>

text \<open>
  C8. Looking up or removing an entity that the store does not contain, and releasing
  a reference count that the registry does not track, return "nothing" and change
  nothing: \<open>GetComponent\<close> gives \<open>None\<close>, \<open>Remove\<close> returns the store and the registry
  as they were (no notification), and \<open>OnComponentRemoved\<close> returns the registry as it
  was.
\<close>

theorem benign_misses:
  "(\<not> Contains s e \<longrightarrow> GetComponent s e = Inr None \<and> Remove r s e = Inr (r, s)) \<and>
   (m_componentCounts r e = None \<longrightarrow> OnComponentRemoved r e = r)"
  by (simp add: Contains_iff GetComponent_def Remove_def OnComponentRemoved_def)

theorem benign_misses_witness:
  "\<not> Contains (ComponentManager_reserved 4 :: nat ComponentManager) 7 \<and>
   GetComponent (ComponentManager_reserved 4 :: nat ComponentManager) 7 = Inr None \<and>
   Remove ECSManager_init (ComponentManager_reserved 4 :: nat ComponentManager) 7 =
     Inr (ECSManager_init, ComponentManager_reserved 4) \<and>
   m_componentCounts ECSManager_init 7 = None \<and>
   OnComponentRemoved ECSManager_init 7 = ECSManager_init"
  using benign_misses [of "ComponentManager_reserved 4 :: nat ComponentManager" 7 ECSManager_init]
  by (simp add: Contains_iff ComponentManager_reserved_def resize_def ECSManager_init_def)

section \<open>The coherence invariant over sequences of operations\<close>

text \<open>
  C1, with the condition on loads that the code needs. Take a store as either
  constructor leaves it and any sequence of mutating operations of its public interface
  in which every call runs to its end (\<open>run_pre\<close>: no call fails an assertion or reaches
  outside a vector), another store given to \<open>Copy\<close> is coherent itself, and every load
  resolves the handles of its archive to pairwise different entities. Then after each
  operation, that is after every prefix of the sequence, the store is coherent: both
  dense arrays have one length, the sparse entry of an entity is the sentinel exactly
  when the entity has no component in the store, and an entry that is not the sentinel
  is an index below that length at which the dense entity array holds the entity itself.
\<close>

theorem coherence_invariant:
  assumes "s = ComponentManager_reserved k \<or> s = ComponentManager_noargs"
    and "run_pre (op_pre dflt) dflt ops (r, s)"
  shows "\<exists>r' s'. run dflt (take n ops) (r, s) = Inr (r', s') \<and> coherent s'"
proof -
  have inv: "store_inv (snd (r, s))"
    using assms(1) store_inv_reserved [of k] store_inv_noargs by auto
  have "\<exists>st'. run dflt (take n ops) (r, s) = Inr st' \<and> store_inv (snd st')"
    using inv assms(2)
  proof (rule run_inv [where I = store_inv and P = "op_pre dflt", rotated 1])
    fix op r s r' s'
    assume "store_inv s" "op_pre dflt op (r, s)" "step dflt op (r, s) = Inr (r', s')"
    then show "store_inv s'" by (rule step_inv)
  qed
  then obtain r' s' where "run dflt (take n ops) (r, s) = Inr (r', s')" "store_inv s'"
    by auto
  then show ?thesis using store_inv_coherent by blast
qed

theorem coherence_invariant_witness:
  "run_pre (op_pre (0 :: nat)) 0
     [Op_Create 1, Op_Create 2, Op_Write 0 7,
      Op_Serialize \<lparr>remap = Map.empty, allow_remap = False\<rparr>
        \<lparr>readMode = True, stream = [U64 2, Payload 10, Payload 20, U64 5, U64 3]\<rparr>,
      Op_MoveItem 0 1, Op_Remove 5, Op_Create 6,
      Op_Merge \<lparr>components = [30], entities = [4],
                sparse = [NOT_FOUND, NOT_FOUND, NOT_FOUND, NOT_FOUND, 0]\<rparr>]
     (ECSManager_init, ComponentManager_reserved 8) \<and>
   map_sum id snd (run (0 :: nat) (take 6
     [Op_Create 1, Op_Create 2, Op_Write 0 7,
      Op_Serialize \<lparr>remap = Map.empty, allow_remap = False\<rparr>
        \<lparr>readMode = True, stream = [U64 2, Payload 10, Payload 20, U64 5, U64 3]\<rparr>,
      Op_MoveItem 0 1, Op_Remove 5, Op_Create 6,
      Op_Merge \<lparr>components = [30], entities = [4],
                sparse = [NOT_FOUND, NOT_FOUND, NOT_FOUND, NOT_FOUND, 0]\<rparr>])
     (ECSManager_init, ComponentManager_reserved 8)) =
     Inr \<lparr>components = [20], entities = [3],
          sparse = [NOT_FOUND, NOT_FOUND, NOT_FOUND, 0, NOT_FOUND, NOT_FOUND, NOT_FOUND,
                    NOT_FOUND]\<rparr> \<and>
   coherent \<lparr>components = [20 :: nat], entities = [3],
          sparse = [NOT_FOUND, NOT_FOUND, NOT_FOUND, 0, NOT_FOUND, NOT_FOUND, NOT_FOUND,
                    NOT_FOUND]\<rparr>"
proof -
  let ?ops = "[Op_Create 1, Op_Create 2, Op_Write 0 7,
      Op_Serialize \<lparr>remap = Map.empty, allow_remap = False\<rparr>
        \<lparr>readMode = True, stream = [U64 2, Payload 10, Payload 20, U64 5, U64 3]\<rparr>,
      Op_MoveItem 0 1, Op_Remove 5, Op_Create 6,
      Op_Merge \<lparr>components = [30 :: nat], entities = [4],
                sparse = [NOT_FOUND, NOT_FOUND, NOT_FOUND, NOT_FOUND, 0]\<rparr>]"
  let ?s = "ComponentManager_reserved 8 :: nat ComponentManager"
  let ?t = "\<lparr>components = [20 :: nat], entities = [3],
          sparse = [NOT_FOUND, NOT_FOUND, NOT_FOUND, 0, NOT_FOUND, NOT_FOUND, NOT_FOUND,
                    NOT_FOUND]\<rparr>"
  have p: "run_pre (op_pre 0) 0 ?ops (ECSManager_init, ?s)" by code_simp
  have v: "map_sum id snd (run 0 (take 6 ?ops) (ECSManager_init, ?s)) = Inr ?t" by code_simp
  have c: "?s = ComponentManager_reserved 8 \<or> ?s = ComponentManager_noargs" by simp
  from coherence_invariant [OF c p, of 6] obtain r' s' where
    "run 0 (take 6 ?ops) (ECSManager_init, ?s) = Inr (r', s')" "coherent s'" by (elim exE conjE)
  with v have "coherent ?t" by simp
  with p v show ?thesis by simp
qed

text \<open>
  C1 as stated, for every sequence of operations, fails. The registry has handed out
  entity 1 and the store holds a component for it; the load context maps the stored
  handle 100 to entity 1. A load of two components with the handles 200 and 100 clears
  the store, which releases identifier 1; \<open>CreateEntity\<close> hands it out again for the
  handle 200, and the handle 100 resolves to it as well, so the load leaves entity 1
  twice in the dense array. \<open>Remove\<close> of entity 1 then pops one of the two entries and
  unmaps the sparse slot: entity 1 still has a component in the store while its sparse
  entry is the sentinel. Every call has returned normally.
\<close>

theorem coherence_lost_after_load:
  "map_sum id snd (run (0 :: nat)
     [Op_Create 1,
      Op_Serialize \<lparr>remap = [100 \<mapsto> 1], allow_remap = True\<rparr>
        \<lparr>readMode = True, stream = [U64 2, Payload 10, Payload 20, U64 200, U64 100]\<rparr>]
     (snd (CreateEntity ECSManager_init), ComponentManager_reserved 4)) =
     Inr \<lparr>components = [10, 20], entities = [1, 1],
          sparse = [NOT_FOUND, 1, NOT_FOUND, NOT_FOUND]\<rparr> \<and>
   map_sum id snd (run (0 :: nat)
     [Op_Create 1,
      Op_Serialize \<lparr>remap = [100 \<mapsto> 1], allow_remap = True\<rparr>
        \<lparr>readMode = True, stream = [U64 2, Payload 10, Payload 20, U64 200, U64 100]\<rparr>,
      Op_Remove 1]
     (snd (CreateEntity ECSManager_init), ComponentManager_reserved 4)) =
     Inr \<lparr>components = [10], entities = [1],
          sparse = [NOT_FOUND, NOT_FOUND, NOT_FOUND, NOT_FOUND]\<rparr> \<and>
   1 \<in> set (entities \<lparr>components = [10 :: nat], entities = [1],
          sparse = [NOT_FOUND, NOT_FOUND, NOT_FOUND, NOT_FOUND]\<rparr>) \<and>
   GetIndex \<lparr>components = [10 :: nat], entities = [1],
          sparse = [NOT_FOUND, NOT_FOUND, NOT_FOUND, NOT_FOUND]\<rparr> 1 = NOT_FOUND \<and>
   \<not> coherent \<lparr>components = [10 :: nat], entities = [1],
          sparse = [NOT_FOUND, NOT_FOUND, NOT_FOUND, NOT_FOUND]\<rparr>"
proof -
  let ?t = "\<lparr>components = [10 :: nat], entities = [1],
          sparse = [NOT_FOUND, NOT_FOUND, NOT_FOUND, NOT_FOUND]\<rparr>"
  have a: "map_sum id snd (run (0 :: nat)
     [Op_Create 1,
      Op_Serialize \<lparr>remap = [100 \<mapsto> 1], allow_remap = True\<rparr>
        \<lparr>readMode = True, stream = [U64 2, Payload 10, Payload 20, U64 200, U64 100]\<rparr>]
     (snd (CreateEntity ECSManager_init), ComponentManager_reserved 4)) =
     Inr \<lparr>components = [10, 20], entities = [1, 1],
          sparse = [NOT_FOUND, 1, NOT_FOUND, NOT_FOUND]\<rparr>"
    by code_simp
  have b: "map_sum id snd (run (0 :: nat)
     [Op_Create 1,
      Op_Serialize \<lparr>remap = [100 \<mapsto> 1], allow_remap = True\<rparr>
        \<lparr>readMode = True, stream = [U64 2, Payload 10, Payload 20, U64 200, U64 100]\<rparr>,
      Op_Remove 1]
     (snd (CreateEntity ECSManager_init), ComponentManager_reserved 4)) = Inr ?t"
    by code_simp
  have c: "1 \<in> set (entities ?t)" by simp
  have d: "GetIndex ?t 1 = NOT_FOUND" by (simp add: GetIndex_def)
  have e: "\<not> coherent ?t" using c d by (auto simp: coherent_def)
  from a b c d e show ?thesis by blast
qed

section \<open>Create\<close>

text \<open>
  C2. \<open>Create\<close> at the entity \<^verbatim>\<open>0xFFFFFFFF\<close> on a store built with the default
  reservation: the entity is not zero and not present, and lies beyond the 50000 slots of
  the table. \<^verbatim>\<open>entity + 5000\<close> wraps to 4999 in \<^verbatim>\<open>uint32_t\<close>, the table is resized to
  4999 slots, and the access \<^verbatim>\<open>sparse[entity]\<close> that follows is outside it.
\<close>

theorem Create_growth_wraps:
  "(4294967295 :: Entity) \<noteq> INVALID_ENTITY \<and>
   \<not> Contains (ComponentManager_reserved DEFAULT_RESERVED_COUNT :: unit ComponentManager) 4294967295 \<and>
   unat ((4294967295 :: Entity) + 5000) = 4999 \<and>
   Create () r (ComponentManager_reserved DEFAULT_RESERVED_COUNT) 4294967295 = Inl OutOfBounds"
  by (simp add: Create_def Contains_iff ComponentManager_reserved_def DEFAULT_RESERVED_COUNT_def
      INVALID_ENTITY_def)

section \<open>Remove\<close>

text \<open>
  C3. For an entity \<open>e\<close> present in a coherent store at dense index \<open>i\<close>, \<open>Remove\<close>
  swaps and pops: when \<open>i\<close> is not the last dense index the last component and entity
  move into slot \<open>i\<close> and the sparse slot of the moved entity points to \<open>i\<close>; all other
  dense slots keep their contents; both dense arrays shrink by one; the sparse slot of
  \<open>e\<close> becomes unmapped; the registry receives one \<open>OnComponentRemoved\<close> for \<open>e\<close>. In the
  scenario with entities 1, 2, 3 created in order and components X1, X2, X3, removing
  the first leaves the dense order X3, X2 and the next \<open>CreateEntity\<close> returns 1 with a
  reuse count of 1.
\<close>

theorem Remove_swap_and_pop:
  "(store_inv s \<and> Contains s e \<longrightarrow>
     (\<exists>s'. Remove r s e = Inr (OnComponentRemoved r e, s') \<and>
        length (components s') = length (components s) - 1 \<and>
        length (entities s') = length (entities s) - 1 \<and>
        (unat (GetIndex s e) \<noteq> length (entities s) - 1 \<longrightarrow>
           components s' ! unat (GetIndex s e) = last (components s) \<and>
           entities s' ! unat (GetIndex s e) = last (entities s) \<and>
           GetIndex s' (last (entities s)) = GetIndex s e) \<and>
        (\<forall>k. k < length (entities s) - 1 \<longrightarrow> k \<noteq> unat (GetIndex s e) \<longrightarrow>
           components s' ! k = components s ! k \<and> entities s' ! k = entities s ! k) \<and>
        GetIndex s' e = NOT_FOUND \<and> \<not> Contains s' e \<and>
        length (sparse s') = length (sparse s) \<and>
        (\<forall>x. x < length (sparse s) \<longrightarrow> x \<noteq> unat e \<longrightarrow> x \<noteq> unat (last (entities s)) \<longrightarrow>
           sparse s' ! x = sparse s ! x) \<and>
        store_inv s')) \<and>
   (\<exists>s3 s4 r7 r8.
      remove_first_scenario n dflt X1 X2 X3 = Inr (s3, s4, r7, 1, r8) \<and>
      entities s3 = [1, 2, 3] \<and> components s3 = [X1, X2, X3] \<and>
      entities s4 = [3, 2] \<and> components s4 = [X3, X2] \<and>
      GetIndex s4 1 = NOT_FOUND \<and> m_freeIDs r7 = [1] \<and> m_reusedIDCount r8 = 1)"
proof (intro conjI impI)
  assume "store_inv s \<and> Contains s e"
  then show "\<exists>s'. Remove r s e = Inr (OnComponentRemoved r e, s') \<and>
        length (components s') = length (components s) - 1 \<and>
        length (entities s') = length (entities s) - 1 \<and>
        (unat (GetIndex s e) \<noteq> length (entities s) - 1 \<longrightarrow>
           components s' ! unat (GetIndex s e) = last (components s) \<and>
           entities s' ! unat (GetIndex s e) = last (entities s) \<and>
           GetIndex s' (last (entities s)) = GetIndex s e) \<and>
        (\<forall>k. k < length (entities s) - 1 \<longrightarrow> k \<noteq> unat (GetIndex s e) \<longrightarrow>
           components s' ! k = components s ! k \<and> entities s' ! k = entities s ! k) \<and>
        GetIndex s' e = NOT_FOUND \<and> \<not> Contains s' e \<and>
        length (sparse s') = length (sparse s) \<and>
        (\<forall>x. x < length (sparse s) \<longrightarrow> x \<noteq> unat e \<longrightarrow> x \<noteq> unat (last (entities s)) \<longrightarrow>
           sparse s' ! x = sparse s ! x) \<and>
        store_inv s'"
    using Remove_spec [of s e r] by blast
next
  show "\<exists>s3 s4 r7 r8.
      remove_first_scenario n dflt X1 X2 X3 = Inr (s3, s4, r7, 1, r8) \<and>
      entities s3 = [1, 2, 3] \<and> components s3 = [X1, X2, X3] \<and>
      entities s4 = [3, 2] \<and> components s4 = [X3, X2] \<and>
      GetIndex s4 1 = NOT_FOUND \<and> m_freeIDs r7 = [1] \<and> m_reusedIDCount r8 = 1"
    by (rule remove_first_scenario_spec)
qed

theorem Remove_swap_and_pop_witness:
  "store_inv \<lparr>components = [10, 20, 30 :: nat], entities = [1, 2, 3],
              sparse = [NOT_FOUND, 0, 1, 2]\<rparr> \<and>
   Contains \<lparr>components = [10, 20, 30 :: nat], entities = [1, 2, 3],
             sparse = [NOT_FOUND, 0, 1, 2]\<rparr> 1 \<and>
   Remove ECSManager_init
     \<lparr>components = [10, 20, 30 :: nat], entities = [1, 2, 3],
      sparse = [NOT_FOUND, 0, 1, 2]\<rparr> 1 =
     Inr (OnComponentRemoved ECSManager_init 1,
          \<lparr>components = [30, 20], entities = [3, 2],
           sparse = [NOT_FOUND, NOT_FOUND, 1, 0]\<rparr>) \<and>
   (\<exists>s3 s4 r7 r8.
      remove_first_scenario 50000 (0 :: nat) 10 20 30 = Inr (s3, s4, r7, 1, r8) \<and>
      components s4 = [30, 20] \<and> m_reusedIDCount r8 = 1)"
proof -
  let ?s = "\<lparr>components = [10, 20, 30 :: nat], entities = [1, 2, 3],
             sparse = [NOT_FOUND, 0, 1 , 2]\<rparr>"
  have h: "store_inv ?s \<and> Contains ?s 1"
    by code_simp
  from Remove_swap_and_pop [of ?s 1 ECSManager_init 50000 0 10 20 30]
  have g: "\<exists>s3 s4 r7 r8.
      remove_first_scenario 50000 (0 :: nat) 10 20 30 = Inr (s3, s4, r7, 1, r8) \<and>
      components s4 = [30, 20] \<and> m_reusedIDCount r8 = 1"
    by blast
  have "Remove ECSManager_init ?s 1 =
     Inr (OnComponentRemoved ECSManager_init 1,
          \<lparr>components = [30, 20], entities = [3, 2],
           sparse = [NOT_FOUND, NOT_FOUND, 1, 0]\<rparr>)"
    by (simp add: Remove_def bind_err_def NOT_FOUND_eq Let_def)
  with h g show ?thesis by blast
qed

section \<open>Remove_KeepSorted\<close>

text \<open>
  C4. For an entity \<open>e\<close> present in a coherent store at dense index \<open>i\<close>,
  \<open>Remove_KeepSorted\<close> leaves both dense arrays as they were with slot \<open>i\<close> deleted (so
  every later element sits one slot earlier and the order of the others is kept), the
  sparse slot of every entity left points to its dense index, \<open>e\<close> is unmapped, the
  registry receives one \<open>OnComponentRemoved\<close> for \<open>e\<close>, and the set of entities left is
  the one \<open>Remove\<close> leaves.
\<close>

theorem Remove_KeepSorted_keeps_order:
  "store_inv s \<and> Contains s e \<longrightarrow>
     (\<exists>s'. Remove_KeepSorted r s e = Inr (OnComponentRemoved r e, s') \<and>
        components s' = take (unat (GetIndex s e)) (components s) @
                        drop (Suc (unat (GetIndex s e))) (components s) \<and>
        entities s' = take (unat (GetIndex s e)) (entities s) @
                      drop (Suc (unat (GetIndex s e))) (entities s) \<and>
        (\<forall>k. k < length (entities s') \<longrightarrow> GetIndex s' (entities s' ! k) = of_nat k) \<and>
        GetIndex s' e = NOT_FOUND \<and> \<not> Contains s' e \<and>
        set (entities s') = set (entities s) - {e} \<and>
        (\<exists>s''. Remove r s e = Inr (OnComponentRemoved r e, s'') \<and>
               set (entities s'') = set (entities s')) \<and>
        store_inv s')"
proof
  assume h: "store_inv s \<and> Contains s e"
  then have inv: "store_inv s" and c: "Contains s e" by simp_all
  from Remove_KeepSorted_spec [OF inv c, of r] obtain s' where
    K: "Remove_KeepSorted r s e = Inr (OnComponentRemoved r e, s')"
    "components s' = take (unat (GetIndex s e)) (components s) @
                        drop (Suc (unat (GetIndex s e))) (components s)"
    "entities s' = take (unat (GetIndex s e)) (entities s) @
                      drop (Suc (unat (GetIndex s e))) (entities s)"
    "\<forall>k. k < length (entities s') \<longrightarrow> GetIndex s' (entities s' ! k) = of_nat k"
    "GetIndex s' e = NOT_FOUND" "\<not> Contains s' e" "store_inv s'"
    by (elim exE conjE) (rule that, assumption+)
  have i: "unat (GetIndex s e) < length (entities s)"
    and ei: "entities s ! unat (GetIndex s e) = e"
    using store_inv_entity_at [OF inv c] by (simp_all add: GetIndex_Contains [OF c])
  have d: "distinct (entities s)" using inv by (simp add: store_inv_def)
  have m: "set (entities s') = set (entities s) - {e}"
    using set_delete_nth [OF d i] ei by (simp add: K(3))
  from Remove_spec [OF inv c, of r] obtain s'' where
    R: "Remove r s e = Inr (OnComponentRemoved r e, s'')" by (elim exE conjE)
  have m': "set (entities s'') = set (entities s')"
    using Remove_members [OF inv c R] m by simp
  have last: "\<exists>s''. Remove r s e = Inr (OnComponentRemoved r e, s'') \<and>
               set (entities s'') = set (entities s')"
    using R m' by blast
  show "\<exists>s'. Remove_KeepSorted r s e = Inr (OnComponentRemoved r e, s') \<and>
        components s' = take (unat (GetIndex s e)) (components s) @
                        drop (Suc (unat (GetIndex s e))) (components s) \<and>
        entities s' = take (unat (GetIndex s e)) (entities s) @
                      drop (Suc (unat (GetIndex s e))) (entities s) \<and>
        (\<forall>k. k < length (entities s') \<longrightarrow> GetIndex s' (entities s' ! k) = of_nat k) \<and>
        GetIndex s' e = NOT_FOUND \<and> \<not> Contains s' e \<and>
        set (entities s') = set (entities s) - {e} \<and>
        (\<exists>s''. Remove r s e = Inr (OnComponentRemoved r e, s'') \<and>
               set (entities s'') = set (entities s')) \<and>
        store_inv s'"
    using K m last by (intro exI [of _ s']) simp
qed

theorem Remove_KeepSorted_keeps_order_witness:
  "store_inv \<lparr>components = [10, 20, 30 :: nat], entities = [1, 2, 3],
              sparse = [NOT_FOUND, 0, 1, 2]\<rparr> \<and>
   Contains \<lparr>components = [10, 20, 30 :: nat], entities = [1, 2, 3],
             sparse = [NOT_FOUND, 0, 1, 2]\<rparr> 1 \<and>
   (\<exists>s'. Remove_KeepSorted ECSManager_init
            \<lparr>components = [10, 20, 30 :: nat], entities = [1, 2, 3],
             sparse = [NOT_FOUND, 0, 1, 2]\<rparr> 1 =
            Inr (OnComponentRemoved ECSManager_init 1, s') \<and>
          components s' = [20, 30] \<and> entities s' = [2, 3] \<and> GetIndex s' 1 = NOT_FOUND)"
proof -
  let ?s = "\<lparr>components = [10, 20, 30 :: nat], entities = [1, 2, 3],
             sparse = [NOT_FOUND, 0, 1 , 2]\<rparr>"
  have h: "store_inv ?s \<and> Contains ?s 1"
    by code_simp
  have g: "unat (GetIndex ?s 1) = 0" by (simp add: GetIndex_def)
  from Remove_KeepSorted_keeps_order [of ?s 1 ECSManager_init, rule_format, OF h]
  obtain s' where
    K: "Remove_KeepSorted ECSManager_init ?s 1 = Inr (OnComponentRemoved ECSManager_init 1, s')"
      "components s' = take (unat (GetIndex ?s 1)) (components ?s) @
                        drop (Suc (unat (GetIndex ?s 1))) (components ?s)"
      "entities s' = take (unat (GetIndex ?s 1)) (entities ?s) @
                        drop (Suc (unat (GetIndex ?s 1))) (entities ?s)"
      "GetIndex s' 1 = NOT_FOUND"
    by (elim exE conjE) (rule that, assumption+)
  have "components s' = [20, 30]" "entities s' = [2, 3]"
    using K(2,3) unfolding g by simp_all
  with h K(1,4) show ?thesis by blast
qed

section \<open>The reuse law\<close>

text \<open>
  C5. On a fresh registry, create \<open>N\<close> entities (fewer than \<open>2^32\<close>: the identifiers are
  32 bits wide and 0 is reserved); let stores report additions, for created entities,
  and removals, in any order. The free list then holds the entities that were released,
  that is whose reference count a removal brought to zero, in the order of their
  release. With \<open>K\<close> the number of releases, the next \<open>K\<close> calls of \<open>CreateEntity\<close> return
  the released entities last released first, the \<open>j\<close>-th call bringing the reuse count to
  \<open>j\<close>, so that it ends at \<open>K\<close> and the free list is empty; no call returned 0. When all
  additions are reported before all removals, the entities released are exactly those
  whose every addition was matched by a removal, each once, and \<open>K \<le> N\<close>.
\<close>

theorem reuse_law:
  assumes "N < 2 ^ 32" and "\<forall>e. Added e \<in> set ns \<longrightarrow> e \<in> set ids" and "length ns < 2 ^ 64"
    and "reuse_scenario N ns K = (ids, r3, outs, r4)"
    and "K = length (release_order (\<lambda>e. 0) ns)"
  shows "ids = map of_nat [1 ..< Suc N] \<and> 0 \<notin> set ids \<and>
    m_freeIDs r3 = release_order (\<lambda>e. 0) ns \<and>
    outs = rev (release_order (\<lambda>e. 0) ns) \<and> 0 \<notin> set outs \<and>
    m_reusedIDCount r3 = 0 \<and> m_reusedIDCount r4 = of_nat K \<and> m_freeIDs r4 = [] \<and>
    (\<forall>j \<le> K. fst (CreateEntities j r3) = take j outs \<and>
              m_reusedIDCount (snd (CreateEntities j r3)) = of_nat j) \<and>
    (\<forall>adds rems. ns = map Added adds @ map Removed rems \<longrightarrow>
       set (m_freeIDs r3) = {e \<in> set adds. count_list adds e \<le> count_list rems e} \<and>
       distinct (m_freeIDs r3) \<and>
       K = card {e \<in> set adds. count_list adds e \<le> count_list rems e} \<and>
       K \<le> N \<and> unat (m_reusedIDCount r4) = K)"
proof -
  define r1 where "r1 = ECSManager_init\<lparr>m_nextID := m_nextID ECSManager_init + of_nat N\<rparr>"
  have c1: "CreateEntities N ECSManager_init =
              (map (\<lambda>k. m_nextID ECSManager_init + of_nat k) [0 ..< N], r1)"
    unfolding r1_def by (rule CreateEntities_fresh) (simp add: ECSManager_init_def)
  have sc: "ids = map (\<lambda>k. m_nextID ECSManager_init + of_nat k) [0 ..< N]"
    "r3 = foldl notify r1 ns" "CreateEntities K r3 = (outs, r4)"
    using assms(4) by (auto simp: reuse_scenario_def c1 Let_def split: prod.splits)
  have "map (\<lambda>k. m_nextID ECSManager_init + of_nat k) [0 ..< N] = map (\<lambda>k. of_nat (Suc k)) [0 ..< N]"
    by (simp add: ECSManager_init_def INVALID_ENTITY_def)
  also have "\<dots> = map of_nat (map Suc [0 ..< N])" by simp
  also have "map Suc [0 ..< N] = [1 ..< Suc N]" by (simp add: map_Suc_upt del: upt_Suc)
  finally have ids: "ids = map of_nat [1 ..< Suc N]" using sc(1) by simp
  have z: "0 \<notin> set ids"
  proof
    assume "0 \<in> set ids"
    then obtain k where k: "k \<in> set [1 ..< Suc N]" "0 = (of_nat k :: Entity)"
      unfolding ids set_map by (rule imageE)
    from k(1) have "0 < k" "k < 2 ^ 32" using assms(1) by (simp_all del: upt_Suc)
    with entity_of_nat_nonzero [of k] k(2) show False by simp
  qed
  have ok1: "counts_ok r1" using counts_ok_init by (simp add: counts_ok_def r1_def)
  have rc1: "ref_count r1 = (\<lambda>e. 0)"
    by (intro ext) (simp add: ref_count_def r1_def ECSManager_init_def)
  have room: "\<forall>e. ref_count r1 e + length ns < 2 ^ 64" using assms(3) by (simp add: rc1)
  note NR = notify_release [OF ok1 room, folded sc(2), unfolded rc1]
  have fr: "m_freeIDs r3 = release_order (\<lambda>e. 0) ns"
    using NR by (simp add: r1_def ECSManager_init_def)
  have r30: "m_reusedIDCount r3 = 0" using NR by (simp add: r1_def ECSManager_init_def)
  have len: "length (m_freeIDs r3) = K" using fr assms(5) by simp
  have reuse: "\<And>j. j \<le> K \<Longrightarrow> CreateEntities j r3 =
     (take j (rev (m_freeIDs r3)),
      r3\<lparr>m_freeIDs := take (K - j) (m_freeIDs r3),
         m_reusedIDCount := m_reusedIDCount r3 + of_nat j\<rparr>)"
    using CreateEntities_reuse [of _ r3] len by simp
  from reuse [of K] sc(3) len have o: "outs = rev (m_freeIDs r3)"
    and r4: "r4 = r3\<lparr>m_freeIDs := [], m_reusedIDCount := m_reusedIDCount r3 + of_nat K\<rparr>"
    by simp_all
  have sub: "set (release_order (\<lambda>e. 0) ns) \<subseteq> set ids"
    using release_order_subset [of "\<lambda>e. 0" ns] assms(2) by auto
  have zo: "0 \<notin> set outs" using z sub by (auto simp: o fr)
  have steps: "\<forall>j \<le> K. fst (CreateEntities j r3) = take j outs \<and>
              m_reusedIDCount (snd (CreateEntities j r3)) = of_nat j"
    using reuse by (simp add: o r30)
  have special: "\<forall>adds rems. ns = map Added adds @ map Removed rems \<longrightarrow>
       set (m_freeIDs r3) = {e \<in> set adds. count_list adds e \<le> count_list rems e} \<and>
       distinct (m_freeIDs r3) \<and>
       K = card {e \<in> set adds. count_list adds e \<le> count_list rems e} \<and>
       K \<le> N \<and> unat (m_reusedIDCount r4) = K"
  proof (intro allI impI)
    fix adds rems assume ns: "ns = map Added adds @ map Removed rems"
    define K' where "K' = card {e \<in> set adds. count_list adds e \<le> count_list rems e}"
    have a: "set adds \<subseteq> set ids" using assms(2) ns by auto
    have la: "length adds < 2 ^ 64" using assms(3) ns by simp
    obtain outs' r4' where ce: "CreateEntities K' r3 = (outs', r4')" by (cases "CreateEntities K' r3")
    have sc': "reuse_scenario N (map Added adds @ map Removed rems) K' = (ids, r3, outs', r4')"
      using sc(1,2) ce by (simp add: reuse_scenario_def c1 Let_def ns)
    note A = reuse_law_aux [OF assms(1) a la sc' K'_def]
    have k: "K = K'" using A(5) len by simp
    have "K < 2 ^ 32" using A(6) k assms(1) by simp
    then have "unat (m_reusedIDCount r4) = K" by (simp add: r4 r30 unat_of_nat)
    then show "set (m_freeIDs r3) = {e \<in> set adds. count_list adds e \<le> count_list rems e} \<and>
       distinct (m_freeIDs r3) \<and>
       K = card {e \<in> set adds. count_list adds e \<le> count_list rems e} \<and>
       K \<le> N \<and> unat (m_reusedIDCount r4) = K"
      using A(3,4,6) k by (simp add: K'_def)
  qed
  have o': "outs = rev (release_order (\<lambda>e. 0) ns)" using o fr by simp
  have r4f: "m_reusedIDCount r4 = of_nat K" "m_freeIDs r4 = []" by (simp_all add: r4 r30)
  show ?thesis
    by (intro conjI) (fact ids, fact z, fact fr, fact o', fact zo, fact r30, fact r4f(1),
        fact r4f(2), fact steps, fact special)
qed

theorem reuse_law_witness:
  "(3 :: nat) < 2 ^ 32 \<and>
   {e. Added e \<in> set [Added 1, Added 2, Added 2, Removed 2, Added 3, Removed 1, Removed 2, Removed 1]}
     \<subseteq> set (fst (reuse_scenario 3
         [Added 1, Added 2, Added 2, Removed 2, Added 3, Removed 1, Removed 2, Removed 1] 2)) \<and>
   length [Added 1, Added 2, Added 2, Removed 2, Added 3, Removed 1, Removed 2, Removed 1] < 2 ^ 64 \<and>
   (2 :: nat) = length (release_order (\<lambda>e. 0)
         [Added 1, Added 2, Added 2, Removed 2, Added 3, Removed 1, Removed 2, Removed 1]) \<and>
   release_order (\<lambda>e. 0)
         [Added 1, Added 2, Added 2, Removed 2, Added 3, Removed 1, Removed 2, Removed 1] = [1, 2] \<and>
   fst (reuse_scenario 3
         [Added 1, Added 2, Added 2, Removed 2, Added 3, Removed 1, Removed 2, Removed 1] 2) = [1, 2, 3] \<and>
   m_freeIDs (fst (snd (reuse_scenario 3
         [Added 1, Added 2, Added 2, Removed 2, Added 3, Removed 1, Removed 2, Removed 1] 2))) = [1, 2] \<and>
   fst (snd (snd (reuse_scenario 3
         [Added 1, Added 2, Added 2, Removed 2, Added 3, Removed 1, Removed 2, Removed 1] 2))) = [2, 1] \<and>
   m_reusedIDCount (snd (snd (snd (reuse_scenario 3
         [Added 1, Added 2, Added 2, Removed 2, Added 3, Removed 1, Removed 2, Removed 1] 2)))) = 2"
proof -
  let ?ns = "[Added 1, Added 2, Added 2, Removed 2, Added 3, Removed 1, Removed 2, Removed 1]"
  let ?X = "reuse_scenario 3 ?ns 2"
  have h1: "(3 :: nat) < 2 ^ 32" by simp
  have ids: "fst ?X = [1, 2, 3]" by code_simp
  have h2: "\<forall>e. Added e \<in> set ?ns \<longrightarrow> e \<in> set (fst ?X)" unfolding ids by simp
  have h2': "{e. Added e \<in> set ?ns} \<subseteq> set (fst ?X)" using h2 by blast
  have h3: "length ?ns < 2 ^ 64" by simp
  have h4: "?X = (fst ?X, fst (snd ?X), fst (snd (snd ?X)), snd (snd (snd ?X)))" by simp
  have ro: "release_order (\<lambda>e. 0) ?ns = [1, 2]" by simp
  have h5: "(2 :: nat) = length (release_order (\<lambda>e. 0) ?ns)" unfolding ro by simp
  note L = reuse_law [OF h1 h2 h3 h4 h5]
  from L ro have fr: "m_freeIDs (fst (snd ?X)) = [1, 2]" by simp
  from L ro have o: "fst (snd (snd ?X)) = [2, 1]" by simp
  from L have rc: "m_reusedIDCount (snd (snd (snd ?X))) = 2" by simp
  from h1 h2' h3 h5 ro ids fr o rc show ?thesis by blast
qed

section \<open>Merge transfers ownership\<close>

text \<open>
  C6. Let \<open>A\<close> and \<open>B\<close> be coherent stores with no entity in common, on a registry that
  tracks at least one reference for every entity of \<open>B\<close> (and whose counts can still be
  incremented). Then \<open>Merge\<close> leaves in \<open>A\<close> its own entries in place followed by those of
  \<open>B\<close> in \<open>B\<close>'s dense order, \<open>A\<close> is coherent and contains exactly the entities of both,
  and \<open>B\<close> is empty with its sparse table all unmapped. The registry at the end is the
  registry at the start: every reference count is what it was. After each of the
  notifications \<open>Merge\<close> sends, the free list is unchanged and every merged entity has a
  positive count, so no identifier is freed.
\<close>

theorem Merge_transfers_ownership:
  assumes "store_inv A" and "store_inv B"
    and "set (entities A) \<inter> set (entities B) = {}"
    and "counts_ok r"
    and "\<forall>e \<in> set (entities B). 0 < ref_count r e \<and> ref_count r e + 1 < 2 ^ 64"
  shows "\<exists>A'. Merge r A B =
            Inr (r, A', B\<lparr>components := [], entities := [],
                          sparse := replicate (length (sparse B)) NOT_FOUND\<rparr>) \<and>
          entities A' = entities A @ entities B \<and>
          components A' = components A @ components B \<and>
          store_inv A' \<and>
          (\<forall>e. Contains A' e \<longleftrightarrow> Contains A e \<or> Contains B e) \<and>
          foldl notify r (Merge_notifications B) = r \<and>
          (\<forall>k \<le> length (Merge_notifications B).
             m_freeIDs (foldl notify r (take k (Merge_notifications B))) = m_freeIDs r \<and>
             (\<forall>e \<in> set (entities B).
                0 < ref_count (foldl notify r (take k (Merge_notifications B))) e))"
proof -
  let ?N = "Merge_notifications B"
  have dB: "distinct (entities B)" using assms(2) by (simp add: store_inv_def)
  note MR = Merge_registry [OF dB assms(4,5), folded Merge_notifications_def]
  have fin: "foldl notify r ?N = r"
  proof (rule registry_eqI [OF assms(4)])
    show "counts_ok (foldl notify r ?N)" using MR [of "length ?N"] by simp
    show "\<forall>x. ref_count (foldl notify r ?N) x = ref_count r x" using MR [of "length ?N"] by simp
    show "m_freeIDs (foldl notify r ?N) = m_freeIDs r" using MR [of "length ?N"] by simp
    show "m_nextID (foldl notify r ?N) = m_nextID r"
      by (simp add: Merge_notifications_def foldl_notify_Added foldl_notify_Removed)
    show "m_reusedIDCount (foldl notify r ?N) = m_reusedIDCount r"
      by (simp add: Merge_notifications_def foldl_notify_Added foldl_notify_Removed)
  qed
  have reg: "foldl OnComponentRemoved (foldl OnComponentAdded r (entities B)) (entities B) = r"
    using fin by (simp add: Merge_notifications_def foldl_notify_Added foldl_notify_Removed)
  from Merge_spec [OF assms(1,2,3), of r] obtain A' where
    M: "Merge r A B =
            Inr (r, A', B\<lparr>components := [], entities := [],
                          sparse := replicate (length (sparse B)) NOT_FOUND\<rparr>)"
    and E: "entities A' = entities A @ entities B"
    and C: "components A' = components A @ components B"
    and I: "store_inv A'"
    unfolding reg by (elim exE conjE)
  have mem: "\<forall>e. Contains A' e \<longleftrightarrow> Contains A e \<or> Contains B e"
    using assms(1,2) I by (simp add: Contains_iff_mem E)
  have during: "\<forall>k \<le> length ?N.
             m_freeIDs (foldl notify r (take k ?N)) = m_freeIDs r \<and>
             (\<forall>e \<in> set (entities B). 0 < ref_count (foldl notify r (take k ?N)) e)"
    using MR by simp
  show ?thesis using M E C I mem fin during by (intro exI [of _ A']) simp
qed

theorem Merge_transfers_ownership_witness:
  "store_inv \<lparr>components = [10 :: nat], entities = [1], sparse = [NOT_FOUND, 0]\<rparr> \<and>
   store_inv \<lparr>components = [20, 30 :: nat], entities = [2, 3],
              sparse = [NOT_FOUND, NOT_FOUND, 0, 1]\<rparr> \<and>
   set [1 :: Entity] \<inter> set [2, 3] = {} \<and>
   counts_ok (foldl OnComponentAdded ECSManager_init [1, 2, 3]) \<and>
   ref_count (foldl OnComponentAdded ECSManager_init [1, 2, 3]) 2 = 1 \<and>
   ref_count (foldl OnComponentAdded ECSManager_init [1, 2, 3]) 3 = 1 \<and>
   (\<exists>A'. Merge (foldl OnComponentAdded ECSManager_init [1, 2, 3])
            \<lparr>components = [10 :: nat], entities = [1], sparse = [NOT_FOUND, 0]\<rparr>
            \<lparr>components = [20, 30 :: nat], entities = [2, 3],
             sparse = [NOT_FOUND, NOT_FOUND, 0, 1]\<rparr> =
          Inr (foldl OnComponentAdded ECSManager_init [1, 2, 3], A',
               \<lparr>components = [], entities = [],
                sparse = [NOT_FOUND, NOT_FOUND, NOT_FOUND, NOT_FOUND]\<rparr>) \<and>
          entities A' = [1, 2, 3] \<and> components A' = [10, 20, 30])"
proof -
  let ?A = "\<lparr>components = [10 :: nat], entities = [1], sparse = [NOT_FOUND, 0]\<rparr>"
  let ?B = "\<lparr>components = [20, 30 :: nat], entities = [2, 3],
              sparse = [NOT_FOUND, NOT_FOUND, 0, 1]\<rparr>"
  let ?r = "foldl OnComponentAdded ECSManager_init [1, 2, 3]"
  have a: "store_inv ?A" by code_simp
  have b: "store_inv ?B" by code_simp
  have d: "set (entities ?A) \<inter> set (entities ?B) = {}" by simp
  have ok: "counts_ok ?r"
    using foldl_Added_count [OF counts_ok_init, of "[1, 2, 3]"]
    by (simp add: ref_count_def ECSManager_init_def)
  have rc: "ref_count ?r 2 = 1" "ref_count ?r 3 = 1"
    by (simp_all add: ref_count_def OnComponentAdded_def ECSManager_init_def)
  have t: "\<forall>e \<in> set (entities ?B). 0 < ref_count ?r e \<and> ref_count ?r e + 1 < 2 ^ 64"
    using rc by simp
  from Merge_transfers_ownership [OF a b d ok t] obtain A' where
    "Merge ?r ?A ?B = Inr (?r, A', ?B\<lparr>components := [], entities := [],
                          sparse := replicate (length (sparse ?B)) NOT_FOUND\<rparr>)"
    "entities A' = entities ?A @ entities ?B" "components A' = components ?A @ components ?B"
    by (elim exE conjE)
  then have "\<exists>A'. Merge ?r ?A ?B =
          Inr (?r, A', \<lparr>components = [], entities = [],
                sparse = [NOT_FOUND, NOT_FOUND, NOT_FOUND, NOT_FOUND]\<rparr>) \<and>
          entities A' = [1, 2, 3] \<and> components A' = [10, 20, 30]"
    by (intro exI [of _ A']) (simp add: numeral_eq_Suc)
  with a b d ok rc show ?thesis by simp
qed

section \<open>The round trip\<close>

text \<open>
  C7. Writing a coherent store with \<open>Serialize\<close> appends the count, the payloads in dense
  order and the entity handles in dense order. Reading that stream back with
  \<open>Serialize\<close> into any store, with remapping disabled, succeeds, consumes exactly what
  was written (whatever follows in the stream is left), and gives a coherent store with
  the same entities and the same payloads at the same dense positions, hence the same
  (entity, payload) pairs in the same order.
\<close>

theorem Serialize_round_trip:
  assumes "store_inv s" and "\<not> allow_remap seri'"
  shows "\<exists>aw. Serialize dflt r seri s \<lparr>readMode = False, stream = []\<rparr> = Inr (r, seri, s, aw) \<and>
           stream aw = U64 (of_nat (length (components s))) #
                       map Payload (components s) @ map (\<lambda>e. U64 (ucast e)) (entities s) \<and>
           (\<exists>t'. Serialize dflt r' seri' t \<lparr>readMode = True, stream = stream aw @ rest\<rparr> =
                    Inr (foldl OnComponentAdded (fst (Clear r' t)) (entities s), seri', t',
                         \<lparr>readMode = True, stream = rest\<rparr>) \<and>
                  entities t' = entities s \<and> components t' = components s \<and>
                  zip (entities t') (components t') = zip (entities s) (components s) \<and>
                  store_inv t')"
proof -
  define aw :: "'a wiArchive" where "aw = \<lparr>readMode = False,
     stream = U64 (of_nat (length (components s))) #
                       map Payload (components s) @ map (\<lambda>e. U64 (ucast e)) (entities s)\<rparr>"
  have W: "Serialize dflt r seri s \<lparr>readMode = False, stream = []\<rparr> = Inr (r, seri, s, aw)"
    by (simp add: Serialize_write aw_def)
  from Serialize_read_back [OF assms, of dflt r' t rest] obtain t' where
    R: "Serialize dflt r' seri' t \<lparr>readMode = True, stream = stream aw @ rest\<rparr> =
           Inr (foldl OnComponentAdded (fst (Clear r' t)) (entities s), seri', t',
                \<lparr>readMode = True, stream = rest\<rparr>)"
    and E: "components t' = components s" "entities t' = entities s" "store_inv t'"
    by (auto simp: aw_def Clear_def)
  show ?thesis
    using W R E by (intro exI [of _ aw] conjI exI [of _ t']) (simp_all add: aw_def)
qed

theorem Serialize_round_trip_witness:
  "store_inv \<lparr>components = [10, 20, 30 :: nat], entities = [1, 2, 3],
              sparse = [NOT_FOUND, 0, 1, 2]\<rparr> \<and>
   \<not> allow_remap \<lparr>remap = Map.empty, allow_remap = False\<rparr> \<and>
   (\<exists>aw :: nat wiArchive.
      stream aw = [U64 3, Payload 10, Payload 20, Payload 30, U64 1, U64 2, U64 3] \<and>
      (\<exists>t'. Serialize 0 ECSManager_init \<lparr>remap = Map.empty, allow_remap = False\<rparr>
               (ComponentManager_reserved 2) \<lparr>readMode = True, stream = stream aw @ [U64 7]\<rparr> =
               Inr (foldl OnComponentAdded ECSManager_init [1, 2, 3],
                    \<lparr>remap = Map.empty, allow_remap = False\<rparr>, t',
                    \<lparr>readMode = True, stream = [U64 7]\<rparr>) \<and>
             entities t' = [1, 2, 3] \<and> components t' = [10, 20, 30]))"
proof -
  let ?s = "\<lparr>components = [10, 20, 30 :: nat], entities = [1, 2, 3],
             sparse = [NOT_FOUND, 0, 1, 2]\<rparr>"
  let ?seri = "\<lparr>remap = Map.empty, allow_remap = False\<rparr>"
  have h1: "store_inv ?s" by code_simp
  have h2: "\<not> allow_remap ?seri" by simp
  note T = Serialize_round_trip [OF h1 h2, of 0 ECSManager_init ?seri ECSManager_init
      "ComponentManager_reserved 2" "[U64 7]"]
  have c: "fst (Clear ECSManager_init (ComponentManager_reserved 2 :: nat ComponentManager)) =
           ECSManager_init"
    by (simp add: Clear_def ComponentManager_reserved_def)
  from T obtain aw :: "nat wiArchive" where
    A: "stream aw = U64 (of_nat (length (components ?s))) #
                       map Payload (components ?s) @ map (\<lambda>e. U64 (ucast e)) (entities ?s)"
    and B: "\<exists>t'. Serialize 0 ECSManager_init ?seri (ComponentManager_reserved 2)
        \<lparr>readMode = True, stream = stream aw @ [U64 7]\<rparr> =
       Inr (foldl OnComponentAdded (fst (Clear ECSManager_init
                                           (ComponentManager_reserved 2 :: nat ComponentManager)))
              (entities ?s), ?seri, t', \<lparr>readMode = True, stream = [U64 7]\<rparr>) \<and>
      entities t' = entities ?s \<and> components t' = components ?s \<and>
      zip (entities t') (components t') = zip (entities ?s) (components ?s) \<and> store_inv t'"
    by (elim exE conjE) (rule that, assumption, rule exI, intro conjI, assumption+)
  from B obtain t' where
    B': "Serialize 0 ECSManager_init ?seri (ComponentManager_reserved 2)
        \<lparr>readMode = True, stream = stream aw @ [U64 7]\<rparr> =
       Inr (foldl OnComponentAdded (fst (Clear ECSManager_init
                                           (ComponentManager_reserved 2 :: nat ComponentManager)))
              (entities ?s), ?seri, t', \<lparr>readMode = True, stream = [U64 7]\<rparr>)"
    "entities t' = entities ?s" "components t' = components ?s"
    by (elim exE conjE)
  have "\<exists>aw :: nat wiArchive.
      stream aw = [U64 3, Payload 10, Payload 20, Payload 30, U64 1, U64 2, U64 3] \<and>
      (\<exists>t'. Serialize 0 ECSManager_init ?seri
               (ComponentManager_reserved 2) \<lparr>readMode = True, stream = stream aw @ [U64 7]\<rparr> =
               Inr (foldl OnComponentAdded ECSManager_init [1, 2, 3], ?seri, t',
                    \<lparr>readMode = True, stream = [U64 7]\<rparr>) \<and>
             entities t' = [1, 2, 3] \<and> components t' = [10, 20, 30])"
    using A B' by (intro exI [of _ aw] conjI exI [of _ t']) (simp_all add: c)
  with h1 h2 show ?thesis by blast
qed

section \<open>Dense entities stay inside the sparse table\<close>




section \<open>Construction\<close>


end
